theory Spec2Isabelle
  imports Complex_Main "HOL-Library.Word" "HOL-Library.Sublist" "HOL-Library.AList"
begin

section \<open>Values shared by the modules\<close>

text \<open>
  Bytes on the wire are 8-bit words. A Python \<open>str\<close> is a sequence of Unicode code
  points, written here as a list of naturals; a command literal of the source is the list
  of the codes of its (ASCII) characters.
\<close>

type_synonym byte = "8 word"
type_synonym str = "nat list"

definition str_of :: "string \<Rightarrow> str" where
  "str_of s = map of_char s"

text \<open>
  The exceptions the modelled code raises or lets through, as values. \<open>Exception\<close>
  carries the message of a plain \<open>raise Exception(...)\<close>.
\<close>

datatype error =
    RCONAuthFailure
  | TimeoutError
  | AssertionError
  | IncompleteReadError
  | ConnectionRefusedError
  | InvalidStateError
  | KeyError
  | StructError
  | UnicodeEncodeError
  | UnicodeDecodeError
  | ValueError
  | NotImplementedError
  | JSONDecodeError
  | RpcException string
  | ProcessLookupError
  | OSError
  | Exception string

section \<open>rcon.py: packets and their wire form\<close>

record packet =
  pkt_id :: int
  type :: int
  body :: str

definition MAX_32_BIT_SIGNED_INT :: int where
  "MAX_32_BIT_SIGNED_INT = 2 ^ 31 - 1"

definition SERVERDATA_AUTH :: int where "SERVERDATA_AUTH = 3"
definition SERVERDATA_AUTH_RESPONSE :: int where "SERVERDATA_AUTH_RESPONSE = 2"
definition SERVERDATA_EXECCOMMAND :: int where "SERVERDATA_EXECCOMMAND = 2"
definition SERVERDATA_RESPONSE_VALUE :: int where "SERVERDATA_RESPONSE_VALUE = 0"

subsection \<open>struct.pack and struct.unpack for the format \<open><i\<close>\<close>

text \<open>
  \<open>struct.pack("<i", n)\<close> writes \<open>n\<close> as four bytes, least significant first, in two's
  complement, and raises \<open>struct.error\<close> outside the signed 32-bit range.
\<close>

definition struct_pack_i :: "int \<Rightarrow> error + byte list" where
  "struct_pack_i n =
     (if - (2 ^ 31) \<le> n \<and> n \<le> 2 ^ 31 - 1
      then Inr [word_of_int n, word_of_int (n div 2 ^ 8),
                word_of_int (n div 2 ^ 16), word_of_int (n div 2 ^ 24)]
      else Inl StructError)"

fun le_uint :: "byte list \<Rightarrow> int" where
  "le_uint [] = 0"
| "le_uint (b # bs) = uint b + 256 * le_uint bs"

text \<open>\<open>struct.unpack("<i", bs)\<close> on four bytes.\<close>

definition struct_unpack_i :: "byte list \<Rightarrow> int" where
  "struct_unpack_i bs = (let u = le_uint bs in if 2 ^ 31 \<le> u then u - 2 ^ 32 else u)"

subsection \<open>The UTF-8 codec of \<open>str.encode\<close> and \<open>bytes.decode\<close>\<close>

definition surrogate :: "nat \<Rightarrow> bool" where
  "surrogate c = (0xD800 \<le> c \<and> c \<le> 0xDFFF)"

text \<open>
  One code point to its UTF-8 bytes (as naturals below 256). A lone surrogate makes
  \<open>str.encode("utf8")\<close> raise; a Python \<open>str\<close> holds no code point above \<open>0x10FFFF\<close>.
\<close>

definition utf8_encode_cp :: "nat \<Rightarrow> nat list option" where
  "utf8_encode_cp c =
     (if c < 0x80 then Some [c]
      else if c < 0x800 then Some [0xC0 + c div 64, 0x80 + c mod 64]
      else if c < 0x10000 then
        (if surrogate c then None
         else Some [0xE0 + c div 4096, 0x80 + c div 64 mod 64, 0x80 + c mod 64])
      else if c < 0x110000 then
        Some [0xF0 + c div 262144, 0x80 + c div 4096 mod 64,
              0x80 + c div 64 mod 64, 0x80 + c mod 64]
      else None)"

fun utf8_encode :: "str \<Rightarrow> nat list option" where
  "utf8_encode [] = Some []"
| "utf8_encode (c # cs) =
     (case utf8_encode_cp c of
        None \<Rightarrow> None
      | Some bs \<Rightarrow> (case utf8_encode cs of None \<Rightarrow> None | Some r \<Rightarrow> Some (bs @ r)))"

definition cont :: "nat \<Rightarrow> bool" where
  "cont b = (0x80 \<le> b \<and> b \<le> 0xBF)"

text \<open>
  The strict decoder: overlong forms, surrogates, code points above \<open>0x10FFFF\<close>, stray
  continuation bytes and truncated sequences are rejected.
\<close>

fun utf8_decode :: "nat list \<Rightarrow> str option" where
  "utf8_decode [] = Some []"
| "utf8_decode (b0 # bs) =
     (if b0 < 0x80 then map_option (Cons b0) (utf8_decode bs)
      else if 0xC2 \<le> b0 \<and> b0 \<le> 0xDF then
        (case bs of
           b1 # r \<Rightarrow>
             if cont b1
             then map_option (Cons ((b0 - 0xC0) * 64 + (b1 - 0x80))) (utf8_decode r)
             else None
         | _ \<Rightarrow> None)
      else if 0xE0 \<le> b0 \<and> b0 \<le> 0xEF then
        (case bs of
           b1 # b2 # r \<Rightarrow>
             (let c = (b0 - 0xE0) * 4096 + (b1 - 0x80) * 64 + (b2 - 0x80)
              in if cont b1 \<and> cont b2 \<and> 0x800 \<le> c \<and> \<not> surrogate c
                 then map_option (Cons c) (utf8_decode r)
                 else None)
         | _ \<Rightarrow> None)
      else if 0xF0 \<le> b0 \<and> b0 \<le> 0xF4 then
        (case bs of
           b1 # b2 # b3 # r \<Rightarrow>
             (let c = (b0 - 0xF0) * 262144 + (b1 - 0x80) * 4096 + (b2 - 0x80) * 64
                      + (b3 - 0x80)
              in if cont b1 \<and> cont b2 \<and> cont b3 \<and> 0x10000 \<le> c \<and> c < 0x110000
                 then map_option (Cons c) (utf8_decode r)
                 else None)
         | _ \<Rightarrow> None)
      else None)"

text \<open>\<open>body.encode("utf8")\<close> and \<open>body_bytes.decode("utf-8")\<close> on wire bytes.\<close>

definition encode_utf8 :: "str \<Rightarrow> error + byte list" where
  "encode_utf8 s =
     (case utf8_encode s of None \<Rightarrow> Inl UnicodeEncodeError | Some bs \<Rightarrow> Inr (map of_nat bs))"

definition decode_utf8 :: "byte list \<Rightarrow> error + str" where
  "decode_utf8 bs =
     (case utf8_decode (map unat bs) of None \<Rightarrow> Inl UnicodeDecodeError | Some s \<Rightarrow> Inr s)"

subsection \<open>Framing\<close>

text \<open>
  \<open>_write_packet\<close>: the bytes handed to \<open>writer.write\<close>, or the exception raised while
  building them.
\<close>

definition write_packet_bytes :: "packet \<Rightarrow> error + byte list" where
  "write_packet_bytes pkt =
     (case struct_pack_i (pkt_id pkt) of
        Inl e \<Rightarrow> Inl e
      | Inr id_bytes \<Rightarrow>
     (case struct_pack_i (type pkt) of
        Inl e \<Rightarrow> Inl e
      | Inr type_bytes \<Rightarrow>
     (case encode_utf8 (body pkt) of
        Inl e \<Rightarrow> Inl e
      | Inr body_bytes \<Rightarrow>
     (let packet_bytes = id_bytes @ type_bytes @ body_bytes @ [0, 0]
      in case struct_pack_i (int (length packet_bytes)) of
           Inl e \<Rightarrow> Inl e
         | Inr size_bytes \<Rightarrow> Inr (size_bytes @ packet_bytes)))))"

text \<open>
  \<open>_read_packet\<close> on the bytes the stream holds up to its end: the packet and the bytes
  left. \<open>readexactly(n)\<close> raises \<open>IncompleteReadError\<close> when fewer than \<open>n\<close> bytes come
  before the end of the stream and \<open>ValueError\<close> for a negative \<open>n\<close>.
\<close>

definition read_packet :: "byte list \<Rightarrow> error + (packet \<times> byte list)" where
  "read_packet buf =
     (if length buf < 3 * 4 then Inl IncompleteReadError
      else
        let header_bytes = take 12 buf;
            pkt_size = struct_unpack_i (take 4 header_bytes);
            p_id = struct_unpack_i (take 4 (drop 4 header_bytes));
            p_type = struct_unpack_i (take 4 (drop 8 header_bytes));
            bytes_already_read_for_id_and_type = 2 * 4;
            len_to_read = pkt_size - bytes_already_read_for_id_and_type
        in if len_to_read < 0 then Inl ValueError
           else if length (drop 12 buf) < nat len_to_read then Inl IncompleteReadError
           else
             let rest_bytes = take (nat len_to_read) (drop 12 buf);
                 body_bytes = take (length rest_bytes - 2) rest_bytes
             in case decode_utf8 body_bytes of
                  Inl e \<Rightarrow> Inl e
                | Inr s \<Rightarrow>
                    Inr (\<lparr>pkt_id = p_id, type = p_type, body = s\<rparr>,
                         drop (12 + nat len_to_read) buf))"

subsection \<open>Well-formed packets and frames\<close>

text \<open>
  A packet the client can put on the wire: its id and type fit the signed 32-bit fields of
  the header, its body is a sequence of Unicode scalar values (what \<open>str.encode\<close>
  accepts), and the length field fits as well.
\<close>

definition valid_cp :: "nat \<Rightarrow> bool" where
  "valid_cp c = (c < 0x110000 \<and> \<not> surrogate c)"

definition utf8_length_cp :: "nat \<Rightarrow> nat" where
  "utf8_length_cp c = (if c < 0x80 then 1 else if c < 0x800 then 2 else if c < 0x10000 then 3 else 4)"

definition utf8_length :: "str \<Rightarrow> nat" where
  "utf8_length s = sum_list (map utf8_length_cp s)"

definition well_formed_packet :: "packet \<Rightarrow> bool" where
  "well_formed_packet p =
     (- (2 ^ 31) \<le> pkt_id p \<and> pkt_id p \<le> 2 ^ 31 - 1 \<and>
      - (2 ^ 31) \<le> type p \<and> type p \<le> 2 ^ 31 - 1 \<and>
      list_all valid_cp (body p) \<and>
      int (utf8_length (body p)) + 10 \<le> 2 ^ 31 - 1)"

text \<open>
  A frame as the wire format describes it: a little-endian int32 total length that counts
  everything after itself, an int32 id, an int32 type, the body bytes and two terminating
  null bytes. The body of a frame is what lies between the header and the terminators;
  \<open>utf8_body\<close> says that it is valid UTF-8, which is what \<open>bytes.decode\<close> accepts.
\<close>

definition well_formed_frame :: "byte list \<Rightarrow> bool" where
  "well_formed_frame b =
     (14 \<le> length b \<and>
      struct_unpack_i (take 4 b) = int (length b) - 4 \<and>
      drop (length b - 2) b = [0, 0])"

definition frame_body :: "byte list \<Rightarrow> byte list" where
  "frame_body b = take (length b - 14) (drop 12 b)"

definition utf8_body :: "byte list \<Rightarrow> bool" where
  "utf8_body b = (utf8_decode (map unat (frame_body b)) \<noteq> None)"

section \<open>rcon.py: the client\<close>

text \<open>
  The client, its pending-request dictionaries, the futures of the requests and the
  connections live in one store, because the source shares them by reference:
  \<open>aclose\<close> replaces \<open>_expected_responses_by_request_id\<close> by a new dictionary while the
  reader task and every \<open>inner_send\<close> still in flight keep the old one. References are
  indices into the lists of the store.
\<close>

text \<open>An \<open>asyncio.Future\<close>: pending, or done with a result, an exception or cancelled.\<close>

datatype future = Pending | Result packet | Raised error | Cancelled

record expected_response =
  is_auth :: bool
  response_future :: nat

text \<open>
  A Python \<open>dict\<close> from request ids to expected responses, in insertion order:
  \<open>d[k] = v\<close> is \<open>AList.update k v d\<close>, \<open>k in d\<close> is \<open>map_of d k \<noteq> None\<close>, \<open>d.values()\<close>
  is \<open>map snd d\<close>.
\<close>

type_synonym pending = "(int \<times> expected_response) list"

text \<open>\<open>del d[k]\<close> raises \<open>KeyError\<close> for a missing key.\<close>

definition dict_del :: "int \<Rightarrow> pending \<Rightarrow> error + pending" where
  "dict_del k d = (if map_of d k = None then Inl KeyError else Inr (AList.delete k d))"

datatype task_state = Running | Finished | Failed error

text \<open>
  One TCP connection opened by \<open>connect\<close>: the bytes handed to the \<open>StreamWriter\<close>, the
  bytes received and not yet consumed through the \<open>StreamReader\<close>, whether
  \<open>writer.close()\<close> was called (the reader then meets the end of the stream), and the
  \<open>_consume_reader\<close> task that \<open>connect\<close> started on it, with the dictionary that task
  was given.
\<close>

record connection =
  written :: "byte list"
  unread :: "byte list"
  closed :: bool
  reader_dict :: nat
  reader_state :: task_state

record rcon_client =
  hostname :: string
  port :: int
  password :: str
  next_id :: int
  reader :: "nat option"
  writer :: "nat option"
  expected_responses_by_request_id :: nat

record system =
  client :: rcon_client
  dicts :: "pending list"
  futures :: "future list"
  connections :: "connection list"

definition get_dict :: "system \<Rightarrow> nat \<Rightarrow> pending" where
  "get_dict s r = (if r < length (dicts s) then dicts s ! r else [])"

definition get_future :: "future list \<Rightarrow> nat \<Rightarrow> future" where
  "get_future fs r = (if r < length fs then fs ! r else Cancelled)"

text \<open>\<open>RCONClient.__init__\<close>: a new client, with its own empty dictionary.\<close>

definition RCONClient :: "string \<Rightarrow> int \<Rightarrow> str \<Rightarrow> system" where
  "RCONClient h p pw =
     \<lparr>client = \<lparr>hostname = h, port = p, password = pw, next_id = 0, reader = None,
                writer = None, expected_responses_by_request_id = 0\<rparr>,
      dicts = [[]], futures = [], connections = []\<rparr>"

subsection \<open>\<open>_get_next_id\<close>\<close>

definition get_next_id :: "rcon_client \<Rightarrow> int \<times> rcon_client" where
  "get_next_id c =
     (let pkt_id = next_id c;
          n = next_id c + 1
      in (pkt_id, c\<lparr>next_id := (if n > MAX_32_BIT_SIGNED_INT then 0 else n)\<rparr>))"

subsection \<open>\<open>_consume_reader\<close>\<close>

text \<open>
  \<open>Future.set_result\<close> and \<open>Future.set_exception\<close> raise \<open>InvalidStateError\<close> on a future
  that is already done.
\<close>

definition set_future :: "nat \<Rightarrow> future \<Rightarrow> future list \<Rightarrow> error + future list" where
  "set_future r v fs =
     (if get_future fs r = Pending then Inr (fs[r := v]) else Inl InvalidStateError)"

text \<open>
  The body of the reader's loop for one packet read: the futures afterwards (the loop
  goes on), or the exception that leaves the loop.
\<close>

definition consume_packet :: "packet \<Rightarrow> pending \<Rightarrow> future list \<Rightarrow> error + future list" where
  "consume_packet pkt d fs =
     (if type pkt = SERVERDATA_AUTH_RESPONSE \<and> pkt_id pkt = - 1 then
        (let auth_responses = filter is_auth (map snd d)
         in if length auth_responses \<noteq> 1 then Inl AssertionError
            else set_future (response_future (hd auth_responses)) (Raised RCONAuthFailure) fs)
      else
        (case map_of d (pkt_id pkt) of
           None \<Rightarrow> Inr fs
         | Some expected_response \<Rightarrow>
             if type pkt = SERVERDATA_RESPONSE_VALUE \<and> is_auth expected_response then Inr fs
             else set_future (response_future expected_response) (Result pkt) fs))"

text \<open>
  What \<open>_read_packet\<close> has taken from the stream when it raises something other than
  \<open>IncompleteReadError\<close>: the header, when the size field makes \<open>readexactly\<close> raise
  \<open>ValueError\<close>; the whole frame, when the body is not UTF-8.
\<close>

definition after_failed_read :: "byte list \<Rightarrow> byte list" where
  "after_failed_read buf =
     (let pkt_size = struct_unpack_i (take 4 buf);
          len_to_read = pkt_size - 2 * 4
      in if len_to_read < 0 then drop 12 buf else drop (12 + nat len_to_read) buf)"

text \<open>
  One run of the reader task over the bytes it can read without waiting. The task ends
  normally on \<open>IncompleteReadError\<close> at the end of the stream, waits (stays \<open>Running\<close>)
  when the stream is open and holds no whole packet, and dies with any other exception.
\<close>

function consume_reader ::
  "byte list \<Rightarrow> bool \<Rightarrow> pending \<Rightarrow> future list \<Rightarrow> task_state \<times> byte list \<times> future list"
where
  "consume_reader buf eof d fs =
     (case read_packet buf of
        Inl e \<Rightarrow>
          if e = IncompleteReadError
          then (if eof then (Finished, [], fs) else (Running, buf, fs))
          else (Failed e, after_failed_read buf, fs)
      | Inr (pkt, rest) \<Rightarrow>
          (case consume_packet pkt d fs of
             Inl e \<Rightarrow> (Failed e, rest, fs)
           | Inr fs' \<Rightarrow> consume_reader rest eof d fs'))"
  by pat_completeness auto
termination
  by (relation "measure (\<lambda>(buf, eof, d, fs). length buf)")
     (auto simp: read_packet_def Let_def split: if_splits sum.splits)

declare consume_reader.simps [simp del]

definition run_reader :: "nat \<Rightarrow> system \<Rightarrow> system" where
  "run_reader k s =
     (if k < length (connections s) \<and> reader_state (connections s ! k) = Running then
        (let c = connections s ! k;
             (st, buf, fs) =
               consume_reader (unread c) (closed c) (get_dict s (reader_dict c)) (futures s)
         in s\<lparr>connections := (connections s)[k := c\<lparr>unread := buf, reader_state := st\<rparr>],
              futures := fs\<rparr>)
      else s)"

text \<open>Bytes from the server arrive on connection \<open>k\<close> and its reader task runs.\<close>

definition deliver :: "nat \<Rightarrow> byte list \<Rightarrow> system \<Rightarrow> system" where
  "deliver k bs s =
     (if k < length (connections s) \<and> \<not> closed (connections s ! k) then
        run_reader k
          (s\<lparr>connections :=
               (connections s)[k := (connections s ! k)
                                 \<lparr>unread := unread (connections s ! k) @ bs\<rparr>]\<rparr>)
      else s)"

subsection \<open>\<open>aclose\<close>\<close>

text \<open>
  \<open>writer.close()\<close> followed by \<open>await writer.wait_closed()\<close>: the connection is closed,
  and the reader task on it is woken with the end of the stream.
\<close>

definition close_connection :: "nat \<Rightarrow> system \<Rightarrow> system" where
  "close_connection k s =
     (if k < length (connections s) then
        run_reader k
          (s\<lparr>connections := (connections s)[k := (connections s ! k)\<lparr>closed := True\<rparr>]\<rparr>)
      else s)"

definition aclose :: "system \<Rightarrow> system" where
  "aclose s =
     (let s1 = (case writer (client s) of
                  Some w \<Rightarrow> close_connection w s
                | None \<Rightarrow> s)
      in s1\<lparr>client := (client s1)\<lparr>writer := None, reader := None, next_id := 0,
                                  expected_responses_by_request_id := length (dicts s1)\<rparr>,
            dicts := dicts s1 @ [[]]\<rparr>)"

subsection \<open>\<open>_send_packet\<close> and \<open>send_command\<close>\<close>

text \<open>
  What a suspended \<open>inner_send\<close> holds: its local reference to the dictionary, the id it
  registered and its future.
\<close>

record waiter =
  w_dict :: nat
  w_id :: int
  w_future :: nat

definition del_pending :: "nat \<Rightarrow> int \<Rightarrow> system \<Rightarrow> error + system" where
  "del_pending r k s =
     (case dict_del k (get_dict s r) of
        Inl e \<Rightarrow> Inl e
      | Inr d \<Rightarrow> Inr (s\<lparr>dicts := (dicts s)[r := d]\<rparr>))"

text \<open>
  \<open>inner_send\<close> up to the point where it awaits the future: the request is registered
  and the packet written. An exception on the way runs the \<open>finally\<close> clause at once.
\<close>

definition begin_send :: "packet \<Rightarrow> system \<Rightarrow> (error + waiter) \<times> system" where
  "begin_send pkt s =
     (let f = length (futures s);
          expected_response = \<lparr>is_auth = (type pkt = SERVERDATA_AUTH), response_future = f\<rparr>;
          r = expected_responses_by_request_id (client s);
          s1 = s\<lparr>futures := futures s @ [Pending],
                 dicts := (dicts s)[r := AList.update (pkt_id pkt) expected_response
                                           (get_dict s r)]\<rparr>;
          failed = (\<lambda>e. case del_pending r (pkt_id pkt) s1 of
                            Inl e' \<Rightarrow> (Inl e', s1)
                          | Inr s2 \<Rightarrow> (Inl e, s2))
      in case writer (client s1) of
           None \<Rightarrow> failed AssertionError
         | Some w \<Rightarrow>
             (case write_packet_bytes pkt of
                Inl e \<Rightarrow> failed e
              | Inr bs \<Rightarrow>
                  (Inr \<lparr>w_dict = r, w_id = pkt_id pkt, w_future = f\<rparr>,
                   s1\<lparr>connections :=
                        (connections s1)[w := (connections s1 ! w)
                                          \<lparr>written := written (connections s1 ! w) @ bs\<rparr>]\<rparr>)))"

text \<open>
  \<open>inner_send\<close> from the await on: the future's result or exception, or, when the future
  is still pending at the deadline of \<open>asyncio.wait_for\<close>, cancellation and
  \<open>TimeoutError\<close>; then the \<open>finally\<close> clause removes the registration.
\<close>

definition end_send :: "waiter \<Rightarrow> system \<Rightarrow> (error + packet) \<times> system" where
  "end_send wt s =
     (let (r, s1) =
            (case get_future (futures s) (w_future wt) of
               Result p \<Rightarrow> (Inr p, s)
             | Raised e \<Rightarrow> (Inl e, s)
             | Cancelled \<Rightarrow> (Inl TimeoutError, s)
             | Pending \<Rightarrow>
                 (Inl TimeoutError, s\<lparr>futures := (futures s)[w_future wt := Cancelled]\<rparr>))
      in case del_pending (w_dict wt) (w_id wt) s1 of
           Inl e \<Rightarrow> (Inl e, s1)
         | Inr s2 \<Rightarrow> (r, s2))"

text \<open>
  \<open>_send_packet\<close> for one caller: \<open>incoming\<close> are the bytes the server sends on the
  client's connection before the deadline.
\<close>

definition send_packet :: "packet \<Rightarrow> byte list \<Rightarrow> system \<Rightarrow> (error + packet) \<times> system" where
  "send_packet pkt incoming s =
     (case begin_send pkt s of
        (Inl e, s1) \<Rightarrow> (Inl e, s1)
      | (Inr wt, s1) \<Rightarrow>
          end_send wt (case writer (client s1) of
                         Some w \<Rightarrow> deliver w incoming s1
                       | None \<Rightarrow> s1))"

definition begin_send_command :: "str \<Rightarrow> system \<Rightarrow> (error + waiter) \<times> system" where
  "begin_send_command command s =
     (let (i, c) = get_next_id (client s);
          pkt = \<lparr>pkt_id = i, type = SERVERDATA_EXECCOMMAND, body = command\<rparr>
      in begin_send pkt (s\<lparr>client := c\<rparr>))"


definition send_command :: "str \<Rightarrow> byte list \<Rightarrow> system \<Rightarrow> (error + str) \<times> system" where
  "send_command command incoming s =
     (let (i, c) = get_next_id (client s);
          pkt = \<lparr>pkt_id = i, type = SERVERDATA_EXECCOMMAND, body = command\<rparr>
      in case send_packet pkt incoming (s\<lparr>client := c\<rparr>) of
           (Inl e, s1) \<Rightarrow> (Inl e, s1)
         | (Inr p, s1) \<Rightarrow> (Inr (body p), s1))"

subsection \<open>\<open>connect\<close>\<close>

text \<open>
  \<open>opened\<close> is what \<open>asyncio.open_connection\<close> does: \<open>None\<close> when the connection is
  made, or the exception it raises. \<open>incoming\<close> are the bytes the server sends before the
  deadline of the login.
\<close>

definition connect :: "error option \<Rightarrow> byte list \<Rightarrow> system \<Rightarrow> (error + unit) \<times> system" where
  "connect opened incoming s =
     (let s1 = aclose s
      in case opened of
           Some e \<Rightarrow> (Inl e, s1)
         | None \<Rightarrow>
             (let k = length (connections s1);
                  conn = \<lparr>written = [], unread = [], closed = False,
                          reader_dict = expected_responses_by_request_id (client s1),
                          reader_state = Running\<rparr>;
                  s2 = s1\<lparr>connections := connections s1 @ [conn],
                         client := (client s1)\<lparr>reader := Some k, writer := Some k\<rparr>\<rparr>;
                  (i, c) = get_next_id (client s2);
                  login_pkt = \<lparr>pkt_id = i, type = SERVERDATA_AUTH, body = password c\<rparr>
              in case send_packet login_pkt incoming (s2\<lparr>client := c\<rparr>) of
                   (Inl e, s3) \<Rightarrow> (Inl e, s3)
                 | (Inr response, s3) \<Rightarrow>
                     if pkt_id login_pkt = pkt_id response then (Inr (), s3)
                     else (Inl AssertionError, s3)))"

text \<open>The ids returned by \<open>n\<close> successive calls of \<open>_get_next_id\<close>.\<close>

fun alloc_ids :: "nat \<Rightarrow> rcon_client \<Rightarrow> int list" where
  "alloc_ids 0 c = []"
| "alloc_ids (Suc n) c = (case get_next_id c of (i, c') \<Rightarrow> i # alloc_ids n c')"


subsection \<open>A concrete client and server replies\<close>

text \<open>
  A client for \<open>127.0.0.1:27015\<close> with the password \<open>pw\<close>; the server's answer to a
  good login (Factorio sends an empty \<open>SERVERDATA_RESPONSE_VALUE\<close> and then the
  \<open>SERVERDATA_AUTH_RESPONSE\<close>, both with the id of the login) and to a bad one (an
  \<open>SERVERDATA_AUTH_RESPONSE\<close> with id \<open>-1\<close>).
\<close>

definition demo_client :: system where
  "demo_client = RCONClient ''127.0.0.1'' 27015 [112, 119]"

definition auth_ok :: "byte list" where
  "auth_ok = [10, 0, 0, 0, 0, 0, 0, 0, 0, 0, 0, 0, 0, 0,
              10, 0, 0, 0, 0, 0, 0, 0, 2, 0, 0, 0, 0, 0]"

definition auth_bad :: "byte list" where
  "auth_bad = [10, 0, 0, 0, 255, 255, 255, 255, 2, 0, 0, 0, 0, 0]"

definition connected :: system where
  "connected = snd (connect None auth_ok demo_client)"

text \<open>
  \<open>n\<close> commands sent one after the other to a server that answers none of them: each
  call of \<open>send_command\<close> ends with \<open>TimeoutError\<close>.
\<close>

definition timeouts :: "nat \<Rightarrow> str \<Rightarrow> system \<Rightarrow> system" where
  "timeouts n cmd s = ((\<lambda>s. snd (send_command cmd [] s)) ^^ n) s"

text \<open>
  A client connected on \<open>w\<close> with nothing unread there, whose pending dictionary
  (at reference \<open>r\<close>) is \<open>d\<close> and whose next id is \<open>k\<close>.
\<close>

definition idle :: "nat \<Rightarrow> nat \<Rightarrow> pending \<Rightarrow> int \<Rightarrow> system \<Rightarrow> bool" where
  "idle w r d k s =
     (writer (client s) = Some w \<and> w < length (connections s) \<and>
      unread (connections s ! w) = [] \<and> \<not> closed (connections s ! w) \<and>
      expected_responses_by_request_id (client s) = r \<and> r < length (dicts s) \<and>
      dicts s ! r = d \<and>
      next_id (client s) = k)"



section \<open>world.py\<close>

subsection \<open>Data\<close>

record Position =
  pos_x :: real
  pos_y :: real

datatype direction =
  north | northeast | east | southeast | south | southwest | west | northwest

record CreateEntityParams =
  name :: str
  position :: "Position option"
  direction :: "direction option"
  force :: "str option"
  surface :: str


text \<open>The values the modelled callers put into \<open>params: List[Any]\<close>.\<close>

datatype param = IntParam int | StrParam str | EntityParam CreateEntityParams

text \<open>The field \<open>method\<close> of the source is \<open>rpc_method\<close> here.\<close>

record RpcRequest =
  rpc_method :: str
  params :: "param list"

record RpcError =
  code :: int
  message :: str

record 'a RpcResponse =
  result :: "'a option"
  error :: "RpcError option"

text \<open>
  The \<open>return_type\<close> argument of \<open>call_mod\<close>, as far as \<open>call_mod\<close> looks at it:
  \<open>None\<close>, \<open>type(None)\<close>, an \<open>Optional[...]\<close>, or any other type.
\<close>

datatype return_type = ReturnsNone | NoneType | OptionalType | PlainType

record World =
  initial_tick :: int
  cur_tick :: int
  cur_target_tick :: int

text \<open>
  The attrs-generated \<open>__init__\<close> with \<open>__attrs_post_init__\<close>. The \<open>rcon\<close> field refers
  to the client, which lives in the \<open>system\<close> passed to every operation.
\<close>

definition new_World :: "int \<Rightarrow> World" where
  "new_World t = \<lparr>initial_tick = t, cur_tick = t, cur_target_tick = t\<rparr>"

definition get_current_tick :: "World \<Rightarrow> int" where
  "get_current_tick w = cur_tick w - initial_tick w"

subsection \<open>\<open>call_mod\<close>\<close>

text \<open>
  \<open>json.dumps\<close> after the cattrs converter, the converter after \<open>json.loads\<close>, and the
  builtin \<open>int\<close> are library code: they are parameters (\<open>dumps\<close>, \<open>loads\<close>, \<open>int_of\<close>) of
  the functions below, and the properties proved hold whatever they compute.
\<close>

text \<open>The part of \<open>call_mod\<close> before anything is sent: the console command, or the rejection.\<close>

definition call_mod_command ::
  "(RpcRequest \<Rightarrow> str) \<Rightarrow> str \<Rightarrow> param list option \<Rightarrow> error + str" where
  "call_mod_command dumps m ps =
     (let params = (case ps of None \<Rightarrow> [] | Some l \<Rightarrow> l);
          req = \<lparr>rpc_method = m, params = params\<rparr>;
          serialized_request = dumps req
      in if 39 \<in> set serialized_request then Inl NotImplementedError
         else Inr (str_of ''/silent-command rcon.print(remote.call('fle', 'call', '' @ [39]
                   @ serialized_request @ [39] @ str_of ''))''))"

text \<open>The part of \<open>call_mod\<close> after the response has arrived.\<close>

definition call_mod_result ::
  "(str \<Rightarrow> error + 'a RpcResponse) \<Rightarrow> return_type \<Rightarrow> str \<Rightarrow> error + 'a option" where
  "call_mod_result loads rt serialized_response =
     (case loads serialized_response of
        Inl e \<Rightarrow> Inl e
      | Inr response \<Rightarrow>
          if error response \<noteq> None then Inl (RpcException ''Received error'')
          else if result response = None \<and> rt \<noteq> ReturnsNone \<and> rt \<noteq> NoneType
                  \<and> rt \<noteq> OptionalType
          then Inl (RpcException ''Unexpected None result'')
          else Inr (result response))"

definition call_mod ::
  "(RpcRequest \<Rightarrow> str) \<Rightarrow> (str \<Rightarrow> error + 'a RpcResponse) \<Rightarrow> return_type \<Rightarrow> str \<Rightarrow>
   param list option \<Rightarrow> byte list \<Rightarrow> system \<Rightarrow> (error + 'a option) \<times> system" where
  "call_mod dumps loads rt m ps incoming s =
     (case call_mod_command dumps m ps of
        Inl e \<Rightarrow> (Inl e, s)
      | Inr command \<Rightarrow>
          (case send_command command incoming s of
             (Inl e, s1) \<Rightarrow> (Inl e, s1)
           | (Inr serialized_response, s1) \<Rightarrow>
               (call_mod_result loads rt serialized_response, s1)))"

subsection \<open>\<open>step\<close>\<close>

definition tick_command :: str where
  "tick_command = str_of ''/silent-command rcon.print(game.tick)''"

definition check_tick :: "World \<Rightarrow> error + unit" where
  "check_tick w = (if cur_tick w = cur_target_tick w then Inr () else Inl AssertionError)"

text \<open>
  The polling loop of \<open>step\<close> and the assertion after it. Each element of the list is
  what the server sends in answer to one tick query. When the list is used up and the
  loop would query again, the result is \<open>None\<close>: the loop has not ended on these answers.
\<close>

fun poll_ticks ::
  "(str \<Rightarrow> error + int) \<Rightarrow> byte list list \<Rightarrow> World \<Rightarrow> system \<Rightarrow>
   ((error + unit) \<times> World \<times> system) option" where
  "poll_ticks int_of [] w s =
     (if cur_tick w < cur_target_tick w then None else Some (check_tick w, w, s))"
| "poll_ticks int_of (incoming # rest) w s =
     (if cur_tick w < cur_target_tick w then
        (case send_command tick_command incoming s of
           (Inl e, s1) \<Rightarrow> Some (Inl e, w, s1)
         | (Inr cur_tick_str, s1) \<Rightarrow>
             (case int_of cur_tick_str of
                Inl e \<Rightarrow> Some (Inl e, w, s1)
              | Inr t \<Rightarrow> poll_ticks int_of rest (w\<lparr>cur_tick := t\<rparr>) s1))
      else Some (check_tick w, w, s))"

text \<open>
  \<open>step\<close>: \<open>reply\<close> is what the server sends in answer to the \<open>step\<close> call of the mod,
  \<open>polls\<close> what it sends in answer to the tick queries.
\<close>

definition step ::
  "(RpcRequest \<Rightarrow> str) \<Rightarrow> (str \<Rightarrow> error + unit RpcResponse) \<Rightarrow> (str \<Rightarrow> error + int) \<Rightarrow>
   int \<Rightarrow> byte list \<Rightarrow> byte list list \<Rightarrow> World \<Rightarrow> system \<Rightarrow>
   ((error + unit) \<times> World \<times> system) option" where
  "step dumps loads int_of num_ticks reply polls w s =
     (let w1 = w\<lparr>cur_target_tick := cur_target_tick w + num_ticks\<rparr>
      in case call_mod dumps loads ReturnsNone (str_of ''step'') (Some [IntParam num_ticks])
                reply s of
           (Inl e, s1) \<Rightarrow> Some (Inl e, w1, s1)
         | (Inr r, s1) \<Rightarrow> poll_ticks int_of polls w1 s1)"

text \<open>Calls of \<open>step\<close> one after the other, up to the first that raises.\<close>

fun steps ::
  "(RpcRequest \<Rightarrow> str) \<Rightarrow> (str \<Rightarrow> error + unit RpcResponse) \<Rightarrow> (str \<Rightarrow> error + int) \<Rightarrow>
   (int \<times> byte list \<times> byte list list) list \<Rightarrow> World \<Rightarrow> system \<Rightarrow>
   ((error + unit) \<times> World \<times> system) option" where
  "steps dumps loads int_of [] w s = Some (Inr (), w, s)"
| "steps dumps loads int_of ((n, reply, polls) # calls) w s =
     (case step dumps loads int_of n reply polls w s of
        None \<Rightarrow> None
      | Some (Inl e, w1, s1) \<Rightarrow> Some (Inl e, w1, s1)
      | Some (Inr u, w1, s1) \<Rightarrow> steps dumps loads int_of calls w1 s1)"

subsection \<open>\<open>create_entities\<close>\<close>







subsection \<open>Stand-ins for the library functions, and server replies\<close>

text \<open>
  A serializer, two parsers of responses and a parser of integers, used where a concrete
  run is evaluated: they stand for \<open>json.dumps\<close>, \<open>json.loads\<close> with the converter, and
  \<open>int\<close>, on the inputs of the examples only.
\<close>

fun decimal :: "nat \<Rightarrow> str" where
  "decimal n = (if n < 10 then [48 + n] else decimal (n div 10) @ [48 + n mod 10])"

declare decimal.simps [simp del]

fun dump_param :: "param \<Rightarrow> str" where
  "dump_param (IntParam i) = (if i < 0 then 45 # decimal (nat (- i)) else decimal (nat i))"
| "dump_param (StrParam s) = [34] @ s @ [34]"
| "dump_param (EntityParam e) = str_of ''{'' @ [34] @ str_of ''name'' @ [34] @ str_of '': ''
                               @ [34] @ name e @ [34] @ str_of ''}''"

fun join_params :: "str list \<Rightarrow> str" where
  "join_params [] = []"
| "join_params [a] = a"
| "join_params (a # b # r) = a @ str_of '', '' @ join_params (b # r)"

definition demo_dumps :: "RpcRequest \<Rightarrow> str" where
  "demo_dumps req =
     str_of ''{'' @ [34] @ str_of ''method'' @ [34] @ str_of '': '' @ [34] @ rpc_method req @ [34]
     @ str_of '', '' @ [34] @ str_of ''params'' @ [34] @ str_of '': [''
     @ join_params (map dump_param (params req)) @ str_of '']}''"

text \<open>
  Responses: \<open>null\<close> is a reply with neither result nor error, a text starting with \<open>E\<close>
  a reply with an error, no text at all is not JSON, anything else a reply with a result.
\<close>

definition demo_loads :: "'a \<Rightarrow> str \<Rightarrow> error + 'a RpcResponse" where
  "demo_loads v s =
     (if s = [] then Inl JSONDecodeError
      else if s = str_of ''null'' then Inr \<lparr>result = None, error = None\<rparr>
      else if hd s = 69 then Inr \<lparr>result = None, error = Some \<lparr>code = 1, message = s\<rparr>\<rparr>
      else Inr \<lparr>result = Some v, error = None\<rparr>)"

definition demo_int :: "str \<Rightarrow> error + int" where
  "demo_int s =
     (if s \<noteq> [] \<and> list_all (\<lambda>c. 48 \<le> c \<and> c \<le> 57) s
      then Inr (fold (\<lambda>c a. 10 * a + (int c - 48)) s 0)
      else Inl ValueError)"

text \<open>The frame of a packet, and the frame the server sends for a response.\<close>

definition frame :: "packet \<Rightarrow> byte list" where
  "frame p = (case write_packet_bytes p of Inl e \<Rightarrow> [] | Inr bs \<Rightarrow> bs)"

definition reply_frame :: "int \<Rightarrow> string \<Rightarrow> byte list" where
  "reply_frame i s = frame \<lparr>pkt_id = i, type = SERVERDATA_RESPONSE_VALUE, body = str_of s\<rparr>"

text \<open>Two requests of the echo method, the first with a single quote in its argument.\<close>

definition quoted_request :: "param list option" where
  "quoted_request = Some [StrParam (str_of ''it's'')]"

definition plain_request :: "param list option" where
  "plain_request = Some [StrParam (str_of ''foo'')]"

definition plain_command :: str where
  "plain_command =
     str_of ''/silent-command rcon.print(remote.call('fle', 'call', '' @ [39]
     @ demo_dumps \<lparr>rpc_method = str_of ''test_echo'', params = [StrParam (str_of ''foo'')]\<rparr>
     @ [39] @ str_of ''))''"



text \<open>
  Two runs on the connected client and a new world at tick 0: \<open>step(2)\<close> then \<open>step(1)\<close>
  with the server reporting the ticks 1, 2 and then 3; and \<open>step(2)\<close> with the server
  reporting 1 and then 3.
\<close>

definition two_calls :: "(int \<times> byte list \<times> byte list list) list" where
  "two_calls = [(2, reply_frame 1 ''null'', [reply_frame 2 ''1'', reply_frame 3 ''2'']),
                (1, reply_frame 4 ''null'', [reply_frame 5 ''3''])]"

definition overshooting_call :: "(int \<times> byte list \<times> byte list list) list" where
  "overshooting_call = [(2, reply_frame 1 ''null'', [reply_frame 2 ''1'', reply_frame 3 ''3''])]"

definition final_world :: "('r \<times> World \<times> system) option \<Rightarrow> World" where
  "final_world r = (case r of Some (q, w, s) \<Rightarrow> w | None \<Rightarrow> new_World 0)"

definition final_system :: "('r \<times> World \<times> system) option \<Rightarrow> system" where
  "final_system r = (case r of Some (q, w, s) \<Rightarrow> s | None \<Rightarrow> demo_client)"

definition run_one :: "((error + unit) \<times> World \<times> system) option" where
  "run_one = step demo_dumps (demo_loads ()) demo_int 2 (reply_frame 1 ''null'')
               [reply_frame 2 ''1'', reply_frame 3 ''2''] (new_World 0) connected"

definition run_two :: "((error + unit) \<times> World \<times> system) option" where
  "run_two = steps demo_dumps (demo_loads ()) demo_int two_calls (new_World 0) connected"

definition run_over :: "((error + unit) \<times> World \<times> system) option" where
  "run_over = steps demo_dumps (demo_loads ()) demo_int overshooting_call (new_World 0) connected"







section \<open>Properties of the wire form\<close>

subsection \<open>Packing integers\<close>

lemma mod_step: "(x::int) mod (256 * m) = x mod 256 + 256 * (x div 256 mod m)" if "0 \<le> m"
  using zmod_zmult2_eq [OF that, of x 256] by simp

lemma le_uint_pack:
  "le_uint [word_of_int n :: byte, word_of_int (n div 2 ^ 8),
                word_of_int (n div 2 ^ 16), word_of_int (n div 2 ^ 24)] = n mod 2 ^ 32"
proof -
  have d16: "n div 65536 = n div 256 div 256"
    by (simp add: zdiv_zmult2_eq [symmetric])
  have d24: "n div 16777216 = n div 256 div 256 div 256"
    by (simp add: zdiv_zmult2_eq [symmetric])
  have "n mod 2 ^ 32 = n mod (256 * 16777216)" by simp
  also have "\<dots> = n mod 256 + 256 * (n div 256 mod (256 * 65536))"
    by (subst mod_step) simp_all
  also have "n div 256 mod (256 * 65536) = n div 256 mod 256 + 256 * (n div 256 div 256 mod (256 * 256))"
    by (subst mod_step) simp_all
  also have "n div 256 div 256 mod (256 * 256) = n div 256 div 256 mod 256 + 256 * (n div 256 div 256 div 256 mod 256)"
    by (subst mod_step) simp_all
  finally show ?thesis
    by (simp add: uint_word_of_int take_bit_eq_mod d16 d24)
qed

lemma unpack_pack:
  assumes "struct_pack_i n = Inr bs"
  shows "struct_unpack_i bs = n" "length bs = 4"
proof -
  from assms have r: "- (2 ^ 31) \<le> n" "n \<le> 2 ^ 31 - 1"
    and bs: "bs = [word_of_int n, word_of_int (n div 2 ^ 8),
                word_of_int (n div 2 ^ 16), word_of_int (n div 2 ^ 24)]"
    by (auto simp: struct_pack_i_def split: if_splits)
  have u: "le_uint bs = n mod 2 ^ 32" unfolding bs by (rule le_uint_pack)
  show "struct_unpack_i bs = n"
  proof (cases "0 \<le> n")
    case True
    then have "n mod 2 ^ 32 = n" using r by simp
    then show ?thesis using r True by (simp add: struct_unpack_i_def u)
  next
    case False
    then have "(n + 2 ^ 32) mod 2 ^ 32 = n + 2 ^ 32" using r by (intro mod_pos_pos_trivial) simp_all
    then have "n mod 2 ^ 32 = n + 2 ^ 32" by simp
    then show ?thesis using r False by (simp add: struct_unpack_i_def u)
  qed
  show "length bs = 4" by (simp add: bs)
qed

lemma le_uint_bound: "0 \<le> le_uint bs \<and> le_uint bs < 256 ^ length bs"
proof (induction bs)
  case Nil show ?case by simp
next
  case (Cons b bs)
  have "uint b < 256" using uint_bounded [of b] by simp
  moreover have "0 \<le> uint b" by simp
  ultimately show ?case using Cons by simp
qed

lemma le_uint_inj:
  "length xs = length ys \<Longrightarrow> le_uint xs = le_uint ys \<Longrightarrow> xs = ys"
proof (induction xs ys rule: list_induct2)
  case Nil
  show ?case by simp
next
  case (Cons x xs y ys)
  from Cons.prems have e: "uint x + 256 * le_uint xs = uint y + 256 * le_uint ys" by simp
  have bx: "0 \<le> uint x" "uint x < 256" and "by": "0 \<le> uint y" "uint y < 256"
    using uint_bounded [of x] uint_bounded [of y] by simp_all
  from e have "(uint x + 256 * le_uint xs) mod 256 = (uint y + 256 * le_uint ys) mod 256"
    by simp
  then have xy: "uint x = uint y" using bx "by" by simp
  with e have "le_uint xs = le_uint ys" by simp
  with Cons.IH xy show ?case by (simp add: word_uint_eq_iff)
qed

lemma struct_unpack_i_inj:
  assumes "length xs = 4" "length ys = 4" "struct_unpack_i xs = struct_unpack_i ys"
  shows "xs = ys"
proof -
  have bx: "0 \<le> le_uint xs" "le_uint xs < 2 ^ 32" and "by": "0 \<le> le_uint ys" "le_uint ys < 2 ^ 32"
    using le_uint_bound [of xs] le_uint_bound [of ys] assms by simp_all
  from assms(3) bx "by" have "le_uint xs = le_uint ys"
    by (simp add: struct_unpack_i_def Let_def split: if_splits)
  with assms show ?thesis by (intro le_uint_inj) simp_all
qed

lemma struct_unpack_i_range:
  assumes "length bs = 4"
  shows "- (2 ^ 31) \<le> struct_unpack_i bs" "struct_unpack_i bs \<le> 2 ^ 31 - 1"
  using le_uint_bound [of bs] assms by (simp_all add: struct_unpack_i_def Let_def)

lemma pack_unpack:
  assumes "length bs = 4"
  shows "struct_pack_i (struct_unpack_i bs) = Inr bs"
proof -
  from struct_unpack_i_range [OF assms] obtain bs' where p: "struct_pack_i (struct_unpack_i bs) = Inr bs'"
    by (simp add: struct_pack_i_def)
  from unpack_pack [OF p] assms have "bs' = bs" by (intro struct_unpack_i_inj) simp_all
  with p show ?thesis by simp
qed

subsection \<open>UTF-8\<close>

lemma split64: "l < 64 \<Longrightarrow> (x * 64 + l) div 64 = (x::nat) \<and> (x * 64 + l) mod 64 = l"
  by simp

lemma join64: "(c::nat) div 64 * 64 + c mod 64 = c"
  by simp

lemma digits3:
  fixes h m l :: nat
  assumes "m < 64" "l < 64"
  defines "c \<equiv> h * 4096 + m * 64 + l"
  shows "c mod 64 = l" "c div 64 mod 64 = m" "c div 4096 = h"
proof -
  have e: "c = (h * 64 + m) * 64 + l" by (simp add: c_def)
  have 1: "c div 64 = h * 64 + m" "c mod 64 = l"
    unfolding e using split64 [OF assms(2), of "h * 64 + m"] by blast+
  have 2: "c div 64 div 64 = h" "c div 64 mod 64 = m"
    unfolding 1 using split64 [OF assms(1), of h] by blast+
  have 3: "c div 4096 = c div 64 div 64" by (simp add: div_mult2_eq [symmetric])
  show "c mod 64 = l" "c div 64 mod 64 = m" "c div 4096 = h"
    using 1 2 3 by simp_all
qed

lemma digits4:
  fixes h m k l :: nat
  assumes "m < 64" "k < 64" "l < 64"
  defines "c \<equiv> h * 262144 + m * 4096 + k * 64 + l"
  shows "c mod 64 = l" "c div 64 mod 64 = k" "c div 4096 mod 64 = m" "c div 262144 = h"
proof -
  have e: "c = (h * 4096 + m * 64 + k) * 64 + l" by (simp add: c_def)
  have 1: "c div 64 = h * 4096 + m * 64 + k" "c mod 64 = l"
    unfolding e using split64 [OF assms(3), of "h * 4096 + m * 64 + k"] by blast+
  have 3: "c div 4096 = c div 64 div 64" "c div 262144 = c div 64 div 4096"
    by (simp_all add: div_mult2_eq [symmetric])
  show "c mod 64 = l" by (rule 1)
  show "c div 64 mod 64 = k" unfolding 1 by (rule digits3(1) [OF assms(1,2)])
  show "c div 4096 mod 64 = m" unfolding 3 1 by (rule digits3(2) [OF assms(1,2)])
  show "c div 262144 = h" unfolding 3 1 by (rule digits3(3) [OF assms(1,2)])
qed

lemma undigits3:
  fixes c :: nat
  shows "c div 4096 * 4096 + c div 64 mod 64 * 64 + c mod 64 = c"
proof -
  have 3: "c div 4096 = c div 64 div 64" by (simp add: div_mult2_eq [symmetric])
  from join64 [of c] join64 [of "c div 64"] show ?thesis unfolding 3 by linarith
qed

lemma undigits4:
  fixes c :: nat
  shows "c div 262144 * 262144 + c div 4096 mod 64 * 4096 + c div 64 mod 64 * 64 + c mod 64 = c"
proof -
  have 3: "c div 4096 = c div 64 div 64" "c div 262144 = c div 64 div 64 div 64"
    by (simp_all add: div_mult2_eq [symmetric])
  from join64 [of c] join64 [of "c div 64"] join64 [of "c div 64 div 64"]
  show ?thesis unfolding 3 by linarith
qed

lemma mod64_le: "(c::nat) mod 64 \<le> 63"
  using pos_mod_bound [of 64 c] by linarith

lemma dec1: "c < 0x80 \<Longrightarrow> utf8_decode (c # r) = map_option (Cons c) (utf8_decode r)"
  by simp

lemma dec2:
  assumes "2 \<le> h" "h \<le> 31" "l \<le> 63"
  shows "utf8_decode ((0xC0 + h) # (0x80 + l) # r) = map_option (Cons (h * 64 + l)) (utf8_decode r)"
  using assms by (simp add: cont_def)

lemma dec3:
  assumes "h \<le> 15" "m \<le> 63" "l \<le> 63"
    "0x800 \<le> h * 4096 + m * 64 + l" "\<not> surrogate (h * 4096 + m * 64 + l)"
  shows "utf8_decode ((0xE0 + h) # (0x80 + m) # (0x80 + l) # r)
         = map_option (Cons (h * 4096 + m * 64 + l)) (utf8_decode r)"
  using assms by (simp add: cont_def Let_def)

lemma dec4:
  assumes "h \<le> 4" "m \<le> 63" "k \<le> 63" "l \<le> 63"
    "0x10000 \<le> h * 262144 + m * 4096 + k * 64 + l" "h * 262144 + m * 4096 + k * 64 + l < 0x110000"
  shows "utf8_decode ((0xF0 + h) # (0x80 + m) # (0x80 + k) # (0x80 + l) # r)
         = map_option (Cons (h * 262144 + m * 4096 + k * 64 + l)) (utf8_decode r)"
  using assms by (simp add: cont_def Let_def)

lemma utf8_decode_encode_cp:
  assumes "utf8_encode_cp c = Some bs"
  shows "utf8_decode (bs @ r) = map_option (Cons c) (utf8_decode r)"
proof -
  consider "c < 0x80" | "0x80 \<le> c" "c < 0x800" | "0x800 \<le> c" "c < 0x10000" "\<not> surrogate c"
    | "0x10000 \<le> c" "c < 0x110000"
    using assms by (auto simp: utf8_encode_cp_def split: if_splits) 
  then show ?thesis
  proof cases
    case 1
    with assms have "bs = [c]" by (auto simp: utf8_encode_cp_def)
    with 1 show ?thesis using dec1 by simp
  next
    case 2
    with assms have bs: "bs = [0xC0 + c div 64, 0x80 + c mod 64]"
      by (auto simp: utf8_encode_cp_def)
    have "2 \<le> c div 64" "c div 64 \<le> 31" using 2 by simp_all
    from dec2 [OF this mod64_le, of c r] show ?thesis unfolding bs by (simp only: join64 append_Cons append_Nil)
  next
    case 3
    with assms have bs: "bs = [0xE0 + c div 4096, 0x80 + c div 64 mod 64, 0x80 + c mod 64]"
      by (auto simp: utf8_encode_cp_def)
    have d: "c div 4096 \<le> 15" using 3 by simp
    from dec3 [of "c div 4096" "c div 64 mod 64" "c mod 64" r, unfolded undigits3, OF d mod64_le mod64_le 3(1,3)]
    show ?thesis unfolding bs by (simp only: append_Cons append_Nil)
  next
    case 4
    with assms have bs: "bs = [0xF0 + c div 262144, 0x80 + c div 4096 mod 64,
              0x80 + c div 64 mod 64, 0x80 + c mod 64]"
      by (auto simp: utf8_encode_cp_def)
    have d: "c div 262144 \<le> 4" using 4 by simp
    from dec4 [of "c div 262144" "c div 4096 mod 64" "c div 64 mod 64" "c mod 64" r, unfolded undigits4, OF d mod64_le mod64_le mod64_le 4]
    show ?thesis unfolding bs by (simp only: append_Cons append_Nil)
  qed
qed

lemma utf8_decode_encode:
  "utf8_encode s = Some bs \<Longrightarrow> utf8_decode bs = Some s"
proof (induction s arbitrary: bs)
  case Nil then show ?case by simp
next
  case (Cons c cs)
  then show ?case
    by (auto split: option.splits simp: utf8_decode_encode_cp simp del: utf8_decode.simps)
qed

lemma utf8_encode_bytes:
  "utf8_encode s = Some bs \<Longrightarrow> \<forall>b\<in>set bs. b < 256"
proof (induction s arbitrary: bs)
  case Nil then show ?case by simp
next
  case (Cons c cs)
  have "utf8_encode_cp c = Some x \<Longrightarrow> \<forall>b\<in>set x. b < 256" for x
    using mod64_le [of c] mod64_le [of "c div 64"] mod64_le [of "c div 4096"]
    by (auto simp: utf8_encode_cp_def split: if_splits)
  with Cons show ?case
    by (auto split: option.splits)
qed

lemma enc2:
  assumes "0xC2 \<le> b0" "b0 \<le> 0xDF" "cont b1"
  shows "utf8_encode_cp ((b0 - 0xC0) * 64 + (b1 - 0x80)) = Some [b0, b1]"
proof -
  define h l where "h = b0 - 0xC0" and "l = b1 - 0x80"
  have hl: "2 \<le> h" "h \<le> 31" "l < 64" "b0 = 0xC0 + h" "b1 = 0x80 + l"
    using assms by (auto simp: h_def l_def cont_def)
  define c where "c = h * 64 + l"
  have dm: "c div 64 = h" "c mod 64 = l" unfolding c_def using split64 [OF hl(3), of h] by blast+
  have r: "0x80 \<le> c" "c < 0x800" using hl(1,2,3) by (simp_all add: c_def)
  have "utf8_encode_cp c = Some [0xC0 + h, 0x80 + l]"
    using r by (simp add: utf8_encode_cp_def dm)
  then show ?thesis unfolding hl(4,5) [symmetric] unfolding c_def h_def l_def .
qed

lemma enc3:
  assumes b: "0xE0 \<le> b0" "b0 \<le> 0xEF" "cont b1" "cont b2"
    and c: "c = (b0 - 0xE0) * 4096 + (b1 - 0x80) * 64 + (b2 - 0x80)"
    and r: "0x800 \<le> c" "\<not> surrogate c"
  shows "utf8_encode_cp c = Some [b0, b1, b2]"
proof -
  define h m l where "h = b0 - 0xE0" and "m = b1 - 0x80" and "l = b2 - 0x80"
  have hl: "h \<le> 15" "m < 64" "l < 64" "b0 = 0xE0 + h" "b1 = 0x80 + m" "b2 = 0x80 + l"
    using b by (auto simp: h_def m_def l_def cont_def)
  have c': "c = h * 4096 + m * 64 + l" unfolding c h_def m_def l_def ..
  note d = digits3 [OF hl(2,3), of h, folded c']
  have ub: "c < 0x10000" using hl(1,2,3) by (simp add: c')
  have "utf8_encode_cp c = Some [0xE0 + h, 0x80 + m, 0x80 + l]"
    using r ub by (simp add: utf8_encode_cp_def d)
  then show ?thesis unfolding hl(4,5,6) [symmetric] .
qed

lemma enc4:
  assumes b: "0xF0 \<le> b0" "b0 \<le> 0xF4" "cont b1" "cont b2" "cont b3"
    and c: "c = (b0 - 0xF0) * 262144 + (b1 - 0x80) * 4096 + (b2 - 0x80) * 64 + (b3 - 0x80)"
    and r: "0x10000 \<le> c" "c < 0x110000"
  shows "utf8_encode_cp c = Some [b0, b1, b2, b3]"
proof -
  define h m k l where "h = b0 - 0xF0" and "m = b1 - 0x80" and "k = b2 - 0x80" and "l = b3 - 0x80"
  have hl: "h \<le> 4" "m < 64" "k < 64" "l < 64" "b0 = 0xF0 + h" "b1 = 0x80 + m" "b2 = 0x80 + k" "b3 = 0x80 + l"
    using b by (auto simp: h_def m_def k_def l_def cont_def)
  have c': "c = h * 262144 + m * 4096 + k * 64 + l" unfolding c h_def m_def k_def l_def ..
  note d = digits4 [OF hl(2,3,4), of h, folded c']
  have "utf8_encode_cp c = Some [0xF0 + h, 0x80 + m, 0x80 + k, 0x80 + l]"
    using r by (simp add: utf8_encode_cp_def d)
  then show ?thesis unfolding hl(5,6,7,8) [symmetric] .
qed

lemma utf8_encode_decode:
  "utf8_decode bs = Some s \<Longrightarrow> utf8_encode s = Some bs"
proof (induction bs arbitrary: s rule: utf8_decode.induct)
  case 1
  then show ?case by simp
next
  case (2 b0 bs)
  consider (a) "b0 < 0x80" | (b) "0xC2 \<le> b0" "b0 \<le> 0xDF" | (c) "0xE0 \<le> b0" "b0 \<le> 0xEF"
    | (d) "0xF0 \<le> b0" "b0 \<le> 0xF4"
    using "2.prems" by (auto split: if_splits)
  then show ?case
  proof cases
    case a
    with "2.prems" obtain s' where s: "s = b0 # s'" "utf8_decode bs = Some s'" by auto
    from "2.IH"(1) [OF a s(2)] a show ?thesis by (simp add: s utf8_encode_cp_def)
  next
    case b
    with "2.prems" obtain b1 r s' where s: "bs = b1 # r" "cont b1"
      "s = ((b0 - 0xC0) * 64 + (b1 - 0x80)) # s'" "utf8_decode r = Some s'"
      by (auto split: list.splits if_splits)
    have n: "\<not> b0 < 0x80" using b by simp
    from "2.IH"(2) [OF n _ s(1) s(2) s(4)] b have "utf8_encode s' = Some r" by simp
    with enc2 [OF b s(2)] show ?thesis by (simp add: s)
  next
    case c
    define cp where "cp = (\<lambda>b1 b2. (b0 - 0xE0) * 4096 + (b1 - 0x80) * 64 + (b2 - 0x80))"
    from c "2.prems" obtain b1 b2 r s' where s: "bs = b1 # b2 # r" "cont b1" "cont b2"
      "0x800 \<le> cp b1 b2" "\<not> surrogate (cp b1 b2)"
      "s = cp b1 b2 # s'" "utf8_decode r = Some s'"
      by (auto split: list.splits if_splits simp: Let_def cp_def)
    have n: "\<not> b0 < 0x80" "\<not> (0xC2 \<le> b0 \<and> b0 \<le> 0xDF)" using c by simp_all
    have "utf8_encode s' = Some r"
      by (rule "2.IH"(3) [OF n _ s(1) _ refl _ s(7)]) (use c s in \<open>simp_all add: cp_def\<close>)
    moreover have "utf8_encode_cp (cp b1 b2) = Some [b0, b1, b2]"
      by (rule enc3 [OF c s(2,3) _ s(4,5)]) (simp add: cp_def)
    ultimately show ?thesis by (simp add: s)
  next
    case d
    define cp where "cp = (\<lambda>b1 b2 b3. (b0 - 0xF0) * 262144 + (b1 - 0x80) * 4096 + (b2 - 0x80) * 64 + (b3 - 0x80))"
    from d "2.prems" obtain b1 b2 b3 r s' where s: "bs = b1 # b2 # b3 # r" "cont b1" "cont b2" "cont b3"
      "0x10000 \<le> cp b1 b2 b3" "cp b1 b2 b3 < 0x110000"
      "s = cp b1 b2 b3 # s'" "utf8_decode r = Some s'"
      by (auto split: list.splits if_splits simp: Let_def cp_def)
    have n: "\<not> b0 < 0x80" "\<not> (0xC2 \<le> b0 \<and> b0 \<le> 0xDF)" "\<not> (0xE0 \<le> b0 \<and> b0 \<le> 0xEF)" using d by simp_all
    have "utf8_encode s' = Some r"
      by (rule "2.IH"(4) [OF n _ s(1) _ _ refl _ s(8)]) (use d s in \<open>simp_all add: cp_def\<close>)
    moreover have "utf8_encode_cp (cp b1 b2 b3) = Some [b0, b1, b2, b3]"
      by (rule enc4 [OF d s(2,3,4) _ s(5,6)]) (simp add: cp_def)
    ultimately show ?thesis by (simp add: s)
  qed
qed

subsection \<open>Frames\<close>

lemma utf8_encode_cp_valid:
  "valid_cp c \<Longrightarrow> \<exists>x. utf8_encode_cp c = Some x \<and> length x = utf8_length_cp c"
  by (simp add: valid_cp_def utf8_encode_cp_def utf8_length_cp_def)

lemma utf8_encode_valid:
  "list_all valid_cp s \<Longrightarrow> \<exists>bs. utf8_encode s = Some bs \<and> length bs = utf8_length s"
proof (induction s)
  case Nil
  show ?case by (simp add: utf8_length_def)
next
  case (Cons c cs)
  then obtain r where r: "utf8_encode cs = Some r" "length r = utf8_length cs" by auto
  from Cons.prems have "valid_cp c" by simp
  then obtain x where "utf8_encode_cp c = Some x" "length x = utf8_length_cp c"
    using utf8_encode_cp_valid by blast
  with r show ?case by (simp add: utf8_length_def)
qed

lemma unat_of_nat_bytes:
  "\<forall>b\<in>set bs. b < 256 \<Longrightarrow> map unat (map of_nat bs :: byte list) = bs"
  by (induction bs) (simp_all add: unat_of_nat)

lemma of_nat_unat_bytes: "map (of_nat \<circ> unat) bs = (bs :: byte list)"
  by (induction bs) simp_all

lemma read_packet_frame:
  assumes l: "length sb = 4" "length idb = 4" "length tyb = 4"
    and sz: "struct_unpack_i sb = int (length bodyb) + 10"
    and d: "utf8_decode (map unat bodyb) = Some s"
  shows "read_packet (sb @ idb @ tyb @ bodyb @ [t1, t2] @ rest)
         = Inr (\<lparr>pkt_id = struct_unpack_i idb, type = struct_unpack_i tyb, body = s\<rparr>, rest)"
proof -
  define buf where "buf = sb @ idb @ tyb @ bodyb @ [t1, t2] @ rest"
  have h: "take 12 buf = sb @ idb @ tyb" using l by (simp add: buf_def)
  have t: "take 4 (sb @ idb @ tyb) = sb" "take 4 (drop 4 (sb @ idb @ tyb)) = idb"
    "take 4 (drop 8 (sb @ idb @ tyb)) = tyb" using l by simp_all
  have r: "drop 12 buf = bodyb @ [t1, t2] @ rest" using l by (simp add: buf_def)
  have n: "nat (struct_unpack_i sb - 2 * 4) = length bodyb + 2" using sz by simp
  have tk: "take (length bodyb + 2) (bodyb @ [t1, t2] @ rest) = bodyb @ [t1, t2]" by simp
  have dr: "drop (12 + (length bodyb + 2)) buf = rest" using l by (simp add: buf_def)
  have len: "\<not> length buf < 3 * 4" using l by (simp add: buf_def)
  have nn: "\<not> struct_unpack_i sb - 2 * 4 < 0" using sz by simp
  show ?thesis
    unfolding buf_def [symmetric] read_packet_def
    by (simp only: len if_False Let_def h t r n nn tk dr)
       (simp add: decode_utf8_def d)
qed

lemma write_then_read:
  assumes wf: "well_formed_packet p"
  shows "\<exists>bs. write_packet_bytes p = Inr bs \<and> read_packet (bs @ rest) = Inr (p, rest)"
proof -
  from wf obtain idb tyb where pk: "struct_pack_i (pkt_id p) = Inr idb" "struct_pack_i (type p) = Inr tyb"
    by (auto simp: well_formed_packet_def struct_pack_i_def)
  from wf obtain nb where nb: "utf8_encode (body p) = Some nb" "length nb = utf8_length (body p)"
    using utf8_encode_valid [of "body p"] by (auto simp: well_formed_packet_def)
  define bodyb :: "byte list" where "bodyb = map of_nat nb"
  have lb: "length bodyb = length nb" by (simp add: bodyb_def)
  note u1 = unpack_pack [OF pk(1)] and u2 = unpack_pack [OF pk(2)]
  have "int (length nb) + 10 \<le> 2 ^ 31 - 1" using wf nb(2) by (simp add: well_formed_packet_def)
  then obtain sb where sb: "struct_pack_i (int (length bodyb) + 10) = Inr sb"
    by (auto simp: struct_pack_i_def lb)
  note u3 = unpack_pack [OF sb]
  have w: "write_packet_bytes p = Inr (sb @ idb @ tyb @ bodyb @ [0, 0])"
    using pk nb sb u1(2) u2(2)
    by (simp add: write_packet_bytes_def encode_utf8_def bodyb_def Let_def add.commute)
  have d: "utf8_decode (map unat bodyb) = Some (body p)"
    using utf8_decode_encode [OF nb(1)] unat_of_nat_bytes [OF utf8_encode_bytes [OF nb(1)]]
    by (simp add: bodyb_def)
  have "read_packet ((sb @ idb @ tyb @ bodyb @ [0, 0]) @ rest) = Inr (p, rest)"
    using read_packet_frame [OF u3(2) u1(2) u2(2) u3(1) d, of 0 0 rest]
    by (simp add: u1 u2)
  with w show ?thesis
    by blast
qed

lemma frame_parts:
  assumes wf: "well_formed_frame b"
  shows "b = take 4 b @ take 4 (drop 4 b) @ take 4 (drop 8 b) @ frame_body b @ [0, 0]"
proof -
  from wf have len: "14 \<le> length b" by (simp add: well_formed_frame_def)
  have tl: "drop (length b - 2) b = [0, 0]" using wf by (simp add: well_formed_frame_def)
  have "b = take 4 b @ take 4 (drop 4 b) @ take 4 (drop 8 b) @ take (length b - 14) (drop 12 b)
            @ drop (length b - 2) b"
  proof -
    have "b = take 4 b @ drop 4 b" by simp
    also have "drop 4 b = take 4 (drop 4 b) @ drop 4 (drop 4 b)"
      by (simp only: append_take_drop_id)
    also have "drop 4 (drop 4 b) = drop 8 b" by simp
    also have "drop 8 b = take 4 (drop 8 b) @ drop 4 (drop 8 b)"
      by (simp only: append_take_drop_id)
    also have "drop 4 (drop 8 b) = drop 12 b" by simp
    also have "drop 12 b = take (length b - 14) (drop 12 b) @ drop (length b - 14) (drop 12 b)"
      by (simp only: append_take_drop_id)
    also have "drop (length b - 14) (drop 12 b) = drop (length b - 2) b" using len by simp
    finally show ?thesis .
  qed
  then show ?thesis
    by (simp add: frame_body_def tl)
qed

lemma read_then_write:
  assumes wf: "well_formed_frame b" and u: "utf8_body b"
  shows "\<exists>q. read_packet (b @ rest) = Inr (q, rest) \<and> write_packet_bytes q = Inr b"
proof -
  define sb idb tyb bodyb where "sb = take 4 b" and "idb = take 4 (drop 4 b)"
    and "tyb = take 4 (drop 8 b)" and "bodyb = frame_body b"
  from wf have len: "14 \<le> length b" by (simp add: well_formed_frame_def)
  have l: "length sb = 4" "length idb = 4" "length tyb = 4" "length bodyb = length b - 14"
    using len by (simp_all add: sb_def idb_def tyb_def bodyb_def frame_body_def)
  have b: "b = sb @ idb @ tyb @ bodyb @ [0, 0]"
    using frame_parts [OF wf] by (simp add: sb_def idb_def tyb_def bodyb_def)
  from u obtain s where s: "utf8_decode (map unat bodyb) = Some s"
    by (auto simp: utf8_body_def bodyb_def)
  have sz: "struct_unpack_i sb = int (length bodyb) + 10"
    using wf len by (simp add: well_formed_frame_def sb_def l)
  define q where "q = \<lparr>pkt_id = struct_unpack_i idb, type = struct_unpack_i tyb, body = s\<rparr>"
  have r: "read_packet (b @ rest) = Inr (q, rest)"
    using read_packet_frame [OF l(1,2,3) sz s, of 0 0 rest] by (simp add: q_def b)
  have "write_packet_bytes q = Inr (sb @ idb @ tyb @ bodyb @ [0, 0])"
    using pack_unpack [OF l(1)] pack_unpack [OF l(2)] pack_unpack [OF l(3)]
      utf8_encode_decode [OF s] l(2,3)
    by (simp add: write_packet_bytes_def q_def encode_utf8_def of_nat_unat_bytes Let_def sz add.commute)
  with r b show ?thesis
    by auto
qed

lemma read_packet_bad_body:
  assumes l: "length sb = 4" "length idb = 4" "length tyb = 4"
    and sz: "struct_unpack_i sb = int (length bodyb) + 10"
    and d: "utf8_decode (map unat bodyb) = None"
  shows "read_packet (sb @ idb @ tyb @ bodyb @ [t1, t2] @ rest) = Inl UnicodeDecodeError"
proof -
  define buf where "buf = sb @ idb @ tyb @ bodyb @ [t1, t2] @ rest"
  have h: "take 12 buf = sb @ idb @ tyb" using l by (simp add: buf_def)
  have t: "take 4 (sb @ idb @ tyb) = sb" "take 4 (drop 4 (sb @ idb @ tyb)) = idb"
    "take 4 (drop 8 (sb @ idb @ tyb)) = tyb" using l by simp_all
  have r: "drop 12 buf = bodyb @ [t1, t2] @ rest" using l by (simp add: buf_def)
  have n: "nat (struct_unpack_i sb - 2 * 4) = length bodyb + 2" using sz by simp
  have tk: "take (length bodyb + 2) (bodyb @ [t1, t2] @ rest) = bodyb @ [t1, t2]" by simp
  have len: "\<not> length buf < 3 * 4" using l by (simp add: buf_def)
  have nn: "\<not> struct_unpack_i sb - 2 * 4 < 0" using sz by simp
  show ?thesis
    unfolding buf_def [symmetric] read_packet_def
    by (simp only: len if_False Let_def h t r n nn tk)
       (simp add: decode_utf8_def d)
qed

lemma read_not_utf8:
  assumes wf: "well_formed_frame b" and u: "\<not> utf8_body b"
  shows "read_packet (b @ rest) = Inl UnicodeDecodeError"
proof -
  define sb idb tyb bodyb where "sb = take 4 b" and "idb = take 4 (drop 4 b)"
    and "tyb = take 4 (drop 8 b)" and "bodyb = frame_body b"
  from wf have len: "14 \<le> length b" by (simp add: well_formed_frame_def)
  have l: "length sb = 4" "length idb = 4" "length tyb = 4" "length bodyb = length b - 14"
    using len by (simp_all add: sb_def idb_def tyb_def bodyb_def frame_body_def)
  have b: "b = sb @ idb @ tyb @ bodyb @ [0, 0]"
    using frame_parts [OF wf] by (simp add: sb_def idb_def tyb_def bodyb_def)
  from u have d: "utf8_decode (map unat bodyb) = None"
    by (simp add: utf8_body_def bodyb_def)
  have sz: "struct_unpack_i sb = int (length bodyb) + 10"
    using wf len by (simp add: well_formed_frame_def sb_def l)
  show ?thesis
    using read_packet_bad_body [OF l(1,2,3) sz d, of 0 0 rest] by (simp add: b)
qed

lemma written_frame:
  assumes wf: "well_formed_packet p" and w: "write_packet_bytes p = Inr bs"
  shows "well_formed_frame bs \<and> utf8_body bs"
proof -
  from wf obtain idb tyb where pk: "struct_pack_i (pkt_id p) = Inr idb" "struct_pack_i (type p) = Inr tyb"
    by (auto simp: well_formed_packet_def struct_pack_i_def)
  from wf obtain nb where nb: "utf8_encode (body p) = Some nb" "length nb = utf8_length (body p)"
    using utf8_encode_valid [of "body p"] by (auto simp: well_formed_packet_def)
  define bodyb :: "byte list" where "bodyb = map of_nat nb"
  have lb: "length bodyb = length nb" by (simp add: bodyb_def)
  note u1 = unpack_pack [OF pk(1)] and u2 = unpack_pack [OF pk(2)]
  have "int (length nb) + 10 \<le> 2 ^ 31 - 1" using wf nb(2) by (simp add: well_formed_packet_def)
  then obtain sb where sb: "struct_pack_i (int (length bodyb) + 10) = Inr sb"
    by (auto simp: struct_pack_i_def lb)
  note u3 = unpack_pack [OF sb]
  have "write_packet_bytes p = Inr (sb @ idb @ tyb @ bodyb @ [0, 0])"
    using pk nb sb u1(2) u2(2)
    by (simp add: write_packet_bytes_def encode_utf8_def bodyb_def Let_def add.commute)
  with w have bs: "bs = sb @ idb @ tyb @ bodyb @ [0, 0]" by simp
  have d: "utf8_decode (map unat bodyb) = Some (body p)"
    using utf8_decode_encode [OF nb(1)] unat_of_nat_bytes [OF utf8_encode_bytes [OF nb(1)]]
    by (simp add: bodyb_def)
  have "well_formed_frame bs"
    using u1(2) u2(2) u3 by (simp add: well_formed_frame_def bs)
  moreover have "frame_body bs = bodyb"
    using u1(2) u2(2) u3(2) by (simp add: frame_body_def bs)
  ultimately show ?thesis using d by (simp add: utf8_body_def)
qed

text \<open>
  Claim C3. Reading back what \<open>_write_packet\<close> wrote for a well-formed packet \<open>p\<close>
  yields \<open>p\<close> and leaves the rest of the stream untouched, and what was written is a
  frame of the wire format (int32 little-endian total length, int32 id, int32 type, body,
  two null bytes) with a UTF-8 body. A frame of the wire format whose body is valid
  UTF-8 is read into a packet that \<open>_write_packet\<close> writes as the same frame again; a
  frame of the wire format whose body is not valid UTF-8 is not read into a packet:
  \<open>_read_packet\<close> raises \<open>UnicodeDecodeError\<close>.
\<close>

theorem framing_round_trip:
  "(well_formed_packet p \<longrightarrow>
      (\<exists>bs. write_packet_bytes p = Inr bs \<and> well_formed_frame bs \<and> utf8_body bs \<and>
            read_packet (bs @ rest) = Inr (p, rest))) \<and>
   (well_formed_frame b \<and> utf8_body b \<longrightarrow>
      (\<exists>q. read_packet (b @ rest) = Inr (q, rest) \<and> write_packet_bytes q = Inr b)) \<and>
   (well_formed_frame b \<and> \<not> utf8_body b \<longrightarrow>
      read_packet (b @ rest) = Inl UnicodeDecodeError)"
  using write_then_read [of p rest] written_frame [of p] read_then_write [of b rest]
    read_not_utf8 [of b rest]
  by blast

theorem framing_round_trip_witness:
  "well_formed_packet \<lparr>pkt_id = 7, type = 2, body = [104, 233]\<rparr> \<and>
   well_formed_frame [13, 0, 0, 0, 7, 0, 0, 0, 2, 0, 0, 0, 104, 195, 169, 0, 0] \<and>
   utf8_body [13, 0, 0, 0, 7, 0, 0, 0, 2, 0, 0, 0, 104, 195, 169, 0, 0] \<and>
   (\<exists>bs. write_packet_bytes \<lparr>pkt_id = 7, type = 2, body = [104, 233]\<rparr> = Inr bs \<and>
         well_formed_frame bs \<and> utf8_body bs \<and>
         read_packet (bs @ [1, 2, 3])
         = Inr (\<lparr>pkt_id = 7, type = 2, body = [104, 233]\<rparr>, [1, 2, 3])) \<and>
   (\<exists>q. read_packet ([13, 0, 0, 0, 7, 0, 0, 0, 2, 0, 0, 0, 104, 195, 169, 0, 0] @ [1, 2, 3])
         = Inr (q, [1, 2, 3]) \<and>
        write_packet_bytes q = Inr [13, 0, 0, 0, 7, 0, 0, 0, 2, 0, 0, 0, 104, 195, 169, 0, 0]) \<and>
   well_formed_frame [11, 0, 0, 0, 7, 0, 0, 0, 2, 0, 0, 0, 255, 0, 0] \<and>
   \<not> utf8_body [11, 0, 0, 0, 7, 0, 0, 0, 2, 0, 0, 0, 255, 0, 0] \<and>
   read_packet ([11, 0, 0, 0, 7, 0, 0, 0, 2, 0, 0, 0, 255, 0, 0] @ [1, 2, 3])
     = Inl UnicodeDecodeError"
proof -
  have p: "well_formed_packet \<lparr>pkt_id = 7, type = 2, body = [104, 233]\<rparr>"
    by (simp add: well_formed_packet_def valid_cp_def surrogate_def utf8_length_def
        utf8_length_cp_def)
  have f: "well_formed_frame [13, 0, 0, 0, 7, 0, 0, 0, 2, 0, 0, 0, 104, 195, 169, 0, 0]"
    "utf8_body [13, 0, 0, 0, 7, 0, 0, 0, 2, 0, 0, 0, 104, 195, 169, 0, 0]"
    by (simp_all add: well_formed_frame_def utf8_body_def frame_body_def struct_unpack_i_def
        cont_def)
  have g: "well_formed_frame [11, 0, 0, 0, 7, 0, 0, 0, 2, 0, 0, 0, 255, 0, 0]"
    "\<not> utf8_body [11, 0, 0, 0, 7, 0, 0, 0, 2, 0, 0, 0, 255, 0, 0]"
    by (simp_all add: well_formed_frame_def utf8_body_def frame_body_def struct_unpack_i_def
        cont_def)
  from p f framing_round_trip
    [of "\<lparr>pkt_id = 7, type = 2, body = [104, 233]\<rparr>" "[1, 2, 3]"
        "[13, 0, 0, 0, 7, 0, 0, 0, 2, 0, 0, 0, 104, 195, 169, 0, 0]"]
  have a: "(\<exists>bs. write_packet_bytes \<lparr>pkt_id = 7, type = 2, body = [104, 233]\<rparr> = Inr bs \<and>
         well_formed_frame bs \<and> utf8_body bs \<and>
         read_packet (bs @ [1, 2, 3])
         = Inr (\<lparr>pkt_id = 7, type = 2, body = [104, 233]\<rparr>, [1, 2, 3]))"
    "(\<exists>q. read_packet ([13, 0, 0, 0, 7, 0, 0, 0, 2, 0, 0, 0, 104, 195, 169, 0, 0] @ [1, 2, 3])
         = Inr (q, [1, 2, 3]) \<and>
        write_packet_bytes q = Inr [13, 0, 0, 0, 7, 0, 0, 0, 2, 0, 0, 0, 104, 195, 169, 0, 0])"
    by blast+
  from g framing_round_trip
    [of "\<lparr>pkt_id = 7, type = 2, body = [104, 233]\<rparr>" "[1, 2, 3]"
        "[11, 0, 0, 0, 7, 0, 0, 0, 2, 0, 0, 0, 255, 0, 0]"]
  have b: "read_packet ([11, 0, 0, 0, 7, 0, 0, 0, 2, 0, 0, 0, 255, 0, 0] @ [1, 2, 3])
     = Inl UnicodeDecodeError"
    by blast
  from p f g a b show ?thesis by blast
qed

text \<open>
  A frame of the wire format (length 11, id 7, type 2, the body byte \<open>0xFF\<close>, two null
  bytes) that \<open>_read_packet\<close> does not decode: no packet is read from it, so writing
  what was read does not give the frame back.
\<close>

theorem frame_body_not_utf8:
  "14 \<le> length [11, 0, 0, 0, 7, 0, 0, 0, 2, 0, 0, 0, 255, 0, 0 :: byte] \<and>
   struct_unpack_i (take 4 [11, 0, 0, 0, 7, 0, 0, 0, 2, 0, 0, 0, 255, 0, 0])
     = int (length [11, 0, 0, 0, 7, 0, 0, 0, 2, 0, 0, 0, 255, 0, 0 :: byte]) - 4 \<and>
   drop 13 [11, 0, 0, 0, 7, 0, 0, 0, 2, 0, 0, 0, 255, 0, 0 :: byte] = [0, 0] \<and>
   well_formed_frame [11, 0, 0, 0, 7, 0, 0, 0, 2, 0, 0, 0, 255, 0, 0] \<and>
   read_packet [11, 0, 0, 0, 7, 0, 0, 0, 2, 0, 0, 0, 255, 0, 0] = Inl UnicodeDecodeError \<and>
   \<not> (\<exists>q rest. read_packet [11, 0, 0, 0, 7, 0, 0, 0, 2, 0, 0, 0, 255, 0, 0] = Inr (q, rest))"
proof -
  have r: "read_packet [11, 0, 0, 0, 7, 0, 0, 0, 2, 0, 0, 0, 255, 0, 0] = Inl UnicodeDecodeError"
    by (simp add: read_packet_def struct_unpack_i_def decode_utf8_def Let_def)
  have w: "well_formed_frame [11, 0, 0, 0, 7, 0, 0, 0, 2, 0, 0, 0, 255, 0, 0]"
    by (simp add: well_formed_frame_def struct_unpack_i_def)
  have s: "struct_unpack_i (take 4 [11, 0, 0, 0, 7, 0, 0, 0, 2, 0, 0, 0, 255, 0, 0])
     = int (length [11, 0, 0, 0, 7, 0, 0, 0, 2, 0, 0, 0, 255, 0, 0 :: byte]) - 4"
    by (simp add: struct_unpack_i_def)
  from r w s show ?thesis by simp
qed

section \<open>Properties of the client\<close>

subsection \<open>Request ids\<close>

lemma get_next_id_simps:
  "fst (get_next_id c) = next_id c"
  "next_id (snd (get_next_id c)) = (if next_id c + 1 > MAX_32_BIT_SIGNED_INT then 0 else next_id c + 1)"
  "writer (snd (get_next_id c)) = writer c"
  "reader (snd (get_next_id c)) = reader c"
  "expected_responses_by_request_id (snd (get_next_id c)) = expected_responses_by_request_id c"
  by (simp_all add: get_next_id_def Let_def)

lemma next_id_mod:
  assumes "0 \<le> next_id c" "next_id c \<le> MAX_32_BIT_SIGNED_INT"
  shows "next_id (snd (get_next_id c)) = (next_id c + 1) mod 2 ^ 31"
    and "0 \<le> next_id (snd (get_next_id c))"
    and "next_id (snd (get_next_id c)) \<le> MAX_32_BIT_SIGNED_INT"
  using assms by (auto simp: get_next_id_simps MAX_32_BIT_SIGNED_INT_def)


lemma alloc_ids_eq:
  assumes "0 \<le> next_id c" "next_id c \<le> MAX_32_BIT_SIGNED_INT"
  shows "alloc_ids n c = map (\<lambda>k. (next_id c + int k) mod 2 ^ 31) [0..<n]"
  using assms
proof (induction n arbitrary: c)
  case 0
  show ?case by simp
next
  case (Suc n)
  obtain i c' where g: "get_next_id c = (i, c')" by (cases "get_next_id c")
  then have i: "i = next_id c" and c': "c' = snd (get_next_id c)"
    using get_next_id_simps(1) [of c] by simp_all
  note m = next_id_mod [OF Suc.prems, folded c']
  have "alloc_ids n c' = map (\<lambda>k. (next_id c' + int k) mod 2 ^ 31) [0..<n]"
    by (rule Suc.IH [OF m(2,3)])
  also have "\<dots> = map (\<lambda>k. (next_id c + int (Suc k)) mod 2 ^ 31) [0..<n]"
  proof -
    have "((next_id c + 1) mod 2 ^ 31 + int k) mod 2 ^ 31 = (next_id c + int (Suc k)) mod 2 ^ 31" for k
    proof -
      have "((next_id c + 1) mod 2 ^ 31 + int k) mod 2 ^ 31 = (next_id c + 1 + int k) mod 2 ^ 31"
        by (rule mod_add_left_eq)
      also have "next_id c + 1 + int k = next_id c + int (Suc k)" by simp
      finally show ?thesis .
    qed
    then show ?thesis unfolding m(1) by simp
  qed
  also have "\<dots> = map (\<lambda>k. (next_id c + int k) mod 2 ^ 31) (map Suc [0..<n])"
    by (simp add: comp_def)
  also have "map Suc [0..<n] = [Suc 0..<Suc n]" by (rule map_Suc_upt)
  finally have t: "alloc_ids n c' = map (\<lambda>k. (next_id c + int k) mod 2 ^ 31) [Suc 0..<Suc n]" .
  have h: "i = (next_id c + int 0) mod 2 ^ 31"
    using Suc.prems by (simp add: i MAX_32_BIT_SIGNED_INT_def)
  have "alloc_ids (Suc n) c = i # alloc_ids n c'" by (simp add: g)
  also have "\<dots> = map (\<lambda>k. (next_id c + int k) mod 2 ^ 31) (0 # [Suc 0..<Suc n])"
    unfolding t using h by simp
  also have "0 # [Suc 0..<Suc n] = [0..<Suc n]" by (simp add: upt_rec)
  finally show ?case .
qed

lemma mod_shift_inj:
  fixes a :: int
  assumes "(a + int k) mod 2 ^ 31 = (a + int k') mod 2 ^ 31" "k < 2 ^ 31" "k' < 2 ^ 31"
  shows "k = k'"
proof -
  from assms(1) have "(2 ^ 31 :: int) dvd (a + int k) - (a + int k')"
    by (simp add: mod_eq_dvd_iff)
  then have d: "(2 ^ 31 :: int) dvd int k - int k'" by simp
  have "\<bar>int k - int k'\<bar> < 2 ^ 31" using assms(2,3) by auto
  with d have "int k - int k' = 0"
    using dvd_imp_le_int [of "int k - int k'" "2 ^ 31"] by fastforce
  then show ?thesis by simp
qed

lemma alloc_ids_distinct:
  assumes "0 \<le> next_id c" "next_id c \<le> MAX_32_BIT_SIGNED_INT" "n \<le> 2 ^ 31"
  shows "distinct (alloc_ids n c)"
proof -
  have "inj_on (\<lambda>k. (next_id c + int k) mod 2 ^ 31) (set [0..<n])"
    using assms(3) by (auto intro!: inj_onI mod_shift_inj [of "next_id c"])
  then show ?thesis
    unfolding alloc_ids_eq [OF assms(1,2)] by (simp add: distinct_map)
qed

subsection \<open>A command that is never answered\<close>

lemma consume_reader_empty: "consume_reader [] False d fs = (Running, [], fs)"
  by (subst consume_reader.simps) (simp add: read_packet_def)

lemma dict_del_update:
  "map_of d k = None \<Longrightarrow> dict_del k (AList.update k v d) = Inr d"
  by (simp add: dict_del_def update_conv' delete_update_same map_of_eq_None_iff)

lemma begin_send_ok:
  assumes "writer (client s) = Some w" "write_packet_bytes pkt = Inr bs"
  shows "begin_send pkt s =
    (Inr \<lparr>w_dict = expected_responses_by_request_id (client s), w_id = pkt_id pkt,
          w_future = length (futures s)\<rparr>,
     s\<lparr>futures := futures s @ [Pending],
       dicts := (dicts s)[expected_responses_by_request_id (client s) :=
                  AList.update (pkt_id pkt)
                    \<lparr>is_auth = (type pkt = SERVERDATA_AUTH), response_future = length (futures s)\<rparr>
                    (get_dict s (expected_responses_by_request_id (client s)))],
       connections := (connections s)[w := (connections s ! w)
                         \<lparr>written := written (connections s ! w) @ bs\<rparr>]\<rparr>)"
  using assms by (simp add: begin_send_def Let_def)

lemma deliver_nothing:
  assumes "w < length (connections s)" "unread (connections s ! w) = []"
    "\<not> closed (connections s ! w)"
  shows "futures (deliver w [] s) = futures s" "dicts (deliver w [] s) = dicts s"
    "client (deliver w [] s) = client s"
    "length (connections (deliver w [] s)) = length (connections s)"
    "unread (connections (deliver w [] s) ! w) = []"
    "\<not> closed (connections (deliver w [] s) ! w)"
    "written (connections (deliver w [] s) ! w) = written (connections s ! w)"
  using assms
  by (auto simp: deliver_def run_reader_def Let_def consume_reader_empty split: prod.splits)

lemma end_send_pending:
  assumes "w_future wt < length (futures s)" "futures s ! w_future wt = Pending"
    "w_dict wt < length (dicts s)"
    "dict_del (w_id wt) (dicts s ! w_dict wt) = Inr d"
  shows "end_send wt s = (Inl TimeoutError,
     s\<lparr>futures := (futures s)[w_future wt := Cancelled], dicts := (dicts s)[w_dict wt := d]\<rparr>)"
  using assms by (simp add: end_send_def get_future_def del_pending_def get_dict_def)

lemma send_command_timeout:
  assumes w: "writer (client s) = Some w" "w < length (connections s)"
    and u: "unread (connections s ! w) = []" "\<not> closed (connections s ! w)"
    and r: "expected_responses_by_request_id (client s) < length (dicts s)"
    and k: "map_of (dicts s ! expected_responses_by_request_id (client s)) (next_id (client s)) = None"
    and bs: "write_packet_bytes \<lparr>pkt_id = next_id (client s), type = SERVERDATA_EXECCOMMAND, body = cmd\<rparr> = Inr bs"
  defines "s' \<equiv> snd (send_command cmd [] s)"
  shows "fst (send_command cmd [] s) = Inl TimeoutError"
    and "client s' = snd (get_next_id (client s))"
    and "dicts s' = dicts s"
    and "futures s' = futures s @ [Cancelled]"
    and "length (connections s') = length (connections s)"
    and "unread (connections s' ! w) = []" and "\<not> closed (connections s' ! w)"
proof -
  define c where "c = snd (get_next_id (client s))"
  define pkt where "pkt = \<lparr>pkt_id = next_id (client s), type = SERVERDATA_EXECCOMMAND, body = cmd\<rparr>"
  define r where "r = expected_responses_by_request_id (client s)"
  have g: "get_next_id (client s) = (next_id (client s), c)"
    by (simp add: c_def get_next_id_def Let_def)
  have c: "writer c = Some w" "expected_responses_by_request_id c = r"
    using w by (simp_all add: c_def r_def get_next_id_def Let_def)
  define s0 where "s0 = s\<lparr>client := c\<rparr>"
  obtain wt s1 where b: "begin_send pkt s0 = (Inr wt, s1)"
    and wt: "wt = \<lparr>w_dict = r, w_id = next_id (client s), w_future = length (futures s)\<rparr>"
    and s1: "s1 = s0\<lparr>futures := futures s @ [Pending],
       dicts := (dicts s)[r := AList.update (next_id (client s))
                    \<lparr>is_auth = (type pkt = SERVERDATA_AUTH), response_future = length (futures s)\<rparr>
                    (dicts s ! r)],
       connections := (connections s)[w := (connections s ! w)
                         \<lparr>written := written (connections s ! w) @ bs\<rparr>]\<rparr>"
    using begin_send_ok [of s0 w pkt bs] c bs r
    by (simp add: s0_def pkt_def get_dict_def r_def)
  define s2 where "s2 = deliver w [] s1"
  have p1: "w < length (connections s1)" "unread (connections s1 ! w) = []"
    "\<not> closed (connections s1 ! w)"
    using w u by (simp_all add: s1 s0_def)
  note d = deliver_nothing [OF p1, folded s2_def]
  have e: "end_send wt s2 = (Inl TimeoutError,
     s2\<lparr>futures := (futures s2)[w_future wt := Cancelled], dicts := (dicts s2)[w_dict wt := dicts s ! r]\<rparr>)"
    apply (rule end_send_pending)
    using r k by (simp_all add: d wt s1 s0_def r_def dict_del_update)
  have sp: "send_packet pkt [] s0 = end_send wt s2"
    using b c by (simp add: send_packet_def s2_def s1 s0_def)
  have sc: "send_command cmd [] s = (Inl TimeoutError,
     s2\<lparr>futures := (futures s2)[w_future wt := Cancelled], dicts := (dicts s2)[w_dict wt := dicts s ! r]\<rparr>)"
    using g sp e by (simp add: send_command_def pkt_def s0_def)
  show "fst (send_command cmd [] s) = Inl TimeoutError" by (simp add: sc)
  show "client s' = snd (get_next_id (client s))"
    by (simp add: s'_def sc d s1 s0_def c_def)
  show "dicts s' = dicts s"
    using r by (simp add: s'_def sc d s1 s0_def wt r_def)
  show "futures s' = futures s @ [Cancelled]"
    by (simp add: s'_def sc d s1 s0_def wt)
  show "length (connections s') = length (connections s)"
    by (simp add: s'_def sc d s1 s0_def)
  show "unread (connections s' ! w) = []" "\<not> closed (connections s' ! w)"
    using d by (simp_all add: s'_def sc)
qed


lemma idle_step:
  assumes i: "idle w r d k s" and k: "0 \<le> k" "k \<le> MAX_32_BIT_SIGNED_INT"
    and f: "map_of d k = None"
    and bs: "write_packet_bytes \<lparr>pkt_id = k, type = SERVERDATA_EXECCOMMAND, body = cmd\<rparr> = Inr bs"
  shows "idle w r d ((k + 1) mod 2 ^ 31) (snd (send_command cmd [] s))"
    and "futures (snd (send_command cmd [] s)) = futures s @ [Cancelled]"
    and "dicts (snd (send_command cmd [] s)) = dicts s"
proof -
  from i have a: "writer (client s) = Some w" "w < length (connections s)"
    "unread (connections s ! w) = []" "\<not> closed (connections s ! w)"
    "expected_responses_by_request_id (client s) < length (dicts s)"
    "dicts s ! expected_responses_by_request_id (client s) = d" "next_id (client s) = k"
    "expected_responses_by_request_id (client s) = r"
    by (auto simp: idle_def)
  note t = send_command_timeout [OF a(1-5), of cmd bs, unfolded a(6,7), OF f bs]
  have n: "next_id (snd (get_next_id (client s))) = (k + 1) mod 2 ^ 31"
    using next_id_mod(1) [of "client s"] k a(7) by simp
  show "idle w r d ((k + 1) mod 2 ^ 31) (snd (send_command cmd [] s))"
    unfolding idle_def using t a n by (simp add: get_next_id_simps)
  show "futures (snd (send_command cmd [] s)) = futures s @ [Cancelled]" by (rule t)
  show "dicts (snd (send_command cmd [] s)) = dicts s" by (rule t)
qed

lemma idle_timeouts:
  assumes i: "idle w r d k s" and k: "0 \<le> k" "k \<le> MAX_32_BIT_SIGNED_INT"
    and f: "\<And>j. j < n \<Longrightarrow> map_of d ((k + int j) mod 2 ^ 31) = None"
    and bs: "\<And>j. 0 \<le> j \<Longrightarrow> j \<le> MAX_32_BIT_SIGNED_INT \<Longrightarrow>
       \<exists>bs. write_packet_bytes \<lparr>pkt_id = j, type = SERVERDATA_EXECCOMMAND, body = cmd\<rparr> = Inr bs"
  shows "idle w r d ((k + int n) mod 2 ^ 31) (timeouts n cmd s) \<and>
         take (length (futures s)) (futures (timeouts n cmd s)) = futures s \<and>
         dicts (timeouts n cmd s) = dicts s"
  using f
proof (induction n)
  case 0
  have "k mod 2 ^ 31 = k" using k by (simp add: MAX_32_BIT_SIGNED_INT_def)
  with i show ?case by (simp add: timeouts_def)
next
  case (Suc n)
  define t where "t = timeouts n cmd s"
  define kn where "kn = (k + int n) mod 2 ^ 31"
  have ih: "idle w r d kn t" "take (length (futures s)) (futures t) = futures s" "dicts t = dicts s"
    using Suc.IH Suc.prems by (simp_all add: t_def kn_def)
  have kn: "0 \<le> kn" "kn \<le> MAX_32_BIT_SIGNED_INT"
    by (simp_all add: kn_def MAX_32_BIT_SIGNED_INT_def)
  have fr: "map_of d kn = None" using Suc.prems [of n] by (simp add: kn_def)
  from bs [OF kn] obtain b where b: "write_packet_bytes \<lparr>pkt_id = kn, type = SERVERDATA_EXECCOMMAND, body = cmd\<rparr> = Inr b" ..
  note st = idle_step [OF ih(1) kn fr b]
  have e: "timeouts (Suc n) cmd s = snd (send_command cmd [] t)"
    by (simp add: timeouts_def t_def)
  have m: "(kn + 1) mod 2 ^ 31 = (k + int (Suc n)) mod 2 ^ 31"
  proof -
    have "(kn + 1) mod 2 ^ 31 = (k + int n + 1) mod 2 ^ 31"
      unfolding kn_def by (rule mod_add_left_eq)
    also have "k + int n + 1 = k + int (Suc n)" by simp
    finally show ?thesis .
  qed
  have l: "length (futures s) \<le> length (futures t)"
    using ih(2) by (metis length_take min.cobounded1 min.commute)
  have "idle w r d ((k + int (Suc n)) mod 2 ^ 31) (snd (send_command cmd [] t))"
    using st(1) unfolding m .
  moreover have "take (length (futures s)) (futures (snd (send_command cmd [] t))) = futures s"
    using st(2) ih(2) l by simp
  moreover have "dicts (snd (send_command cmd [] t)) = dicts s"
    using st(3) ih(3) by simp
  ultimately show ?case unfolding e by blast
qed

subsection \<open>Reuse of an id in flight\<close>

lemma connected_idle: "idle 0 1 [] 1 connected"
  by code_simp

lemma first_request:
  "begin_send_command [120] connected =
     (Inr \<lparr>w_dict = 1, w_id = 1, w_future = 1\<rparr>, snd (begin_send_command [120] connected))"
  "idle 0 1 [(1, \<lparr>is_auth = False, response_future = 1\<rparr>)] 2 (snd (begin_send_command [120] connected))"
  "length (futures (snd (begin_send_command [120] connected))) = 2"
  "futures (snd (begin_send_command [120] connected)) ! 1 = Pending"
  by code_simp+

lemma command_writes:
  assumes "0 \<le> j" "j \<le> MAX_32_BIT_SIGNED_INT"
  shows "\<exists>bs. write_packet_bytes \<lparr>pkt_id = j, type = SERVERDATA_EXECCOMMAND, body = [120]\<rparr> = Inr bs"
proof -
  have "well_formed_packet \<lparr>pkt_id = j, type = SERVERDATA_EXECCOMMAND, body = [120]\<rparr>"
    using assms
    by (simp add: well_formed_packet_def MAX_32_BIT_SIGNED_INT_def SERVERDATA_EXECCOMMAND_def
        valid_cp_def surrogate_def utf8_length_def utf8_length_cp_def)
  from write_then_read [OF this, of "[]"] show ?thesis by blast
qed

text \<open>
  Against claim C4 as stated: a request is sent on the connected client and never
  answered, so it stays registered with its future pending; \<open>2^31 - 1\<close> further
  commands are sent, each ending in a timeout; the next command is then given the id
  of the first request, which is still in flight.
\<close>

theorem id_reused_in_flight:
  "\<exists>wa s1 wb s3.
     begin_send_command [120] connected = (Inr wa, s1) \<and>
     get_future (futures (timeouts 2147483647 [120] s1)) (w_future wa) = Pending \<and>
     map_of (get_dict (timeouts 2147483647 [120] s1) (w_dict wa)) (w_id wa)
       = Some \<lparr>is_auth = False, response_future = w_future wa\<rparr> \<and>
     begin_send_command [120] (timeouts 2147483647 [120] s1) = (Inr wb, s3) \<and>
     w_id wb = w_id wa"
proof -
  define s1 where "s1 = snd (begin_send_command [120] connected)"
  define d where "d = [(1 :: int, \<lparr>is_auth = False, response_future = 1\<rparr>)]"
  define t where "t = timeouts 2147483647 [120] s1"
  note fr = first_request [folded s1_def d_def]
  have free: "map_of d ((2 + int j) mod 2 ^ 31) = None" if "j < 2147483647" for j
  proof -
    have "(2 + int j) mod 2 ^ 31 \<noteq> 1"
    proof
      assume "(2 + int j) mod 2 ^ 31 = 1"
      then have "(2 + int j) mod 2 ^ 31 = (2 + int 2147483647) mod 2 ^ 31" by simp
      then have "j = 2147483647" by (rule mod_shift_inj) (use that in simp_all)
      with that show False by simp
    qed
    then show ?thesis by (simp add: d_def)
  qed
  have "idle 0 1 d ((2 + int 2147483647) mod 2 ^ 31) t \<and>
        take (length (futures s1)) (futures t) = futures s1 \<and> dicts t = dicts s1"
    unfolding t_def
  proof (rule idle_timeouts [OF fr(2)])
    show "(0::int) \<le> 2" "(2::int) \<le> MAX_32_BIT_SIGNED_INT"
      by (simp_all add: MAX_32_BIT_SIGNED_INT_def)
    show "map_of d ((2 + int j) mod 2 ^ 31) = None" if "j < 2147483647" for j
      using that by (rule free)
    show "\<exists>bs. write_packet_bytes \<lparr>pkt_id = j, type = SERVERDATA_EXECCOMMAND, body = [120]\<rparr> = Inr bs"
      if "0 \<le> j" "j \<le> MAX_32_BIT_SIGNED_INT" for j
      using that by (rule command_writes)
  qed
  then have i: "idle 0 1 d 1 t" and tk: "take 2 (futures t) = futures s1"
    by (simp_all add: fr(3))
  have len: "2 \<le> length (futures t)"
    using tk fr(3) by (metis length_take min.cobounded1 min.commute)  
  have "futures t ! 1 = take 2 (futures t) ! 1" by simp
  then have p: "get_future (futures t) 1 = Pending"
    using len fr(4) tk by (simp add: get_future_def)
  from i have a: "writer (client t) = Some 0" "next_id (client t) = 1"
    "expected_responses_by_request_id (client t) = 1" "1 < length (dicts t)" "dicts t ! 1 = d"
    by (simp_all add: idle_def)
  have m: "map_of (get_dict t 1) 1 = Some \<lparr>is_auth = False, response_future = 1\<rparr>"
    using a by (simp add: get_dict_def d_def)
  define c where "c = snd (get_next_id (client t))"
  have g: "get_next_id (client t) = (1, c)"
    using a(2) by (simp add: c_def get_next_id_def Let_def)
  have cw: "writer c = Some 0" using a(1) by (simp add: c_def get_next_id_simps)
  from command_writes [of 1] obtain bs
    where bs: "write_packet_bytes \<lparr>pkt_id = 1, type = SERVERDATA_EXECCOMMAND, body = [120]\<rparr> = Inr bs"
    by (auto simp: MAX_32_BIT_SIGNED_INT_def)
  have "\<exists>wb s3. begin_send_command [120] t = (Inr wb, s3) \<and> w_id wb = 1"
    using begin_send_ok [of "t\<lparr>client := c\<rparr>" 0
        "\<lparr>pkt_id = 1, type = SERVERDATA_EXECCOMMAND, body = [120]\<rparr>" bs] cw bs
    by (simp add: begin_send_command_def g)
  with fr(1) p m show ?thesis
    unfolding t_def by auto
qed

text \<open>
  Claim C4, amended. A new client and a closed one start at id 0. From a counter in
  \<open>0 .. 2^31 - 1\<close>, \<open>_get_next_id\<close> returns an id in that range and leaves the counter
  in it; the id returned next is one more, or 0 after \<open>2^31 - 1\<close>; and the ids of up to
  \<open>2^31\<close> successive allocations are pairwise distinct. (The allocator never looks at
  the pending requests: an id is unique among them as long as fewer than \<open>2^31\<close> ids
  are allocated while its request is in flight.)
\<close>

theorem get_next_id_allocation:
  "next_id (client (RCONClient h p pw)) = 0 \<and> next_id (client (aclose s)) = 0 \<and>
   (0 \<le> next_id c \<and> next_id c \<le> MAX_32_BIT_SIGNED_INT \<longrightarrow>
      0 \<le> fst (get_next_id c) \<and> fst (get_next_id c) \<le> MAX_32_BIT_SIGNED_INT \<and>
      0 \<le> next_id (snd (get_next_id c)) \<and>
      next_id (snd (get_next_id c)) \<le> MAX_32_BIT_SIGNED_INT \<and>
      fst (get_next_id (snd (get_next_id c)))
        = (if fst (get_next_id c) = MAX_32_BIT_SIGNED_INT then 0 else fst (get_next_id c) + 1) \<and>
      (n \<le> 2 ^ 31 \<longrightarrow> distinct (alloc_ids n c)))"
proof (intro conjI impI)
  show "next_id (client (RCONClient h p pw)) = 0" by (simp add: RCONClient_def)
  show "next_id (client (aclose s)) = 0" by (simp add: aclose_def Let_def)
next
  assume a: "0 \<le> next_id c \<and> next_id c \<le> MAX_32_BIT_SIGNED_INT"
  then show "0 \<le> fst (get_next_id c)" "fst (get_next_id c) \<le> MAX_32_BIT_SIGNED_INT"
    by (simp_all add: get_next_id_simps)
  from a show "0 \<le> next_id (snd (get_next_id c))"
    "next_id (snd (get_next_id c)) \<le> MAX_32_BIT_SIGNED_INT"
    using next_id_mod(2,3) [of c] by simp_all
  from a show "fst (get_next_id (snd (get_next_id c)))
        = (if fst (get_next_id c) = MAX_32_BIT_SIGNED_INT then 0 else fst (get_next_id c) + 1)"
    by (auto simp: get_next_id_simps)
  assume "n \<le> 2 ^ 31"
  with a show "distinct (alloc_ids n c)" by (simp add: alloc_ids_distinct)
qed

theorem get_next_id_allocation_witness:
  "0 \<le> next_id ((client demo_client)\<lparr>next_id := 2147483647\<rparr>) \<and>
   next_id ((client demo_client)\<lparr>next_id := 2147483647\<rparr>) \<le> MAX_32_BIT_SIGNED_INT \<and>
   (3::nat) \<le> 2 ^ 31 \<and>
   fst (get_next_id ((client demo_client)\<lparr>next_id := 2147483647\<rparr>)) = 2147483647 \<and>
   fst (get_next_id (snd (get_next_id ((client demo_client)\<lparr>next_id := 2147483647\<rparr>)))) = 0 \<and>
   distinct (alloc_ids 3 ((client demo_client)\<lparr>next_id := 2147483647\<rparr>))"
  using get_next_id_allocation
    [of "''h''" 0 "[]" demo_client "(client demo_client)\<lparr>next_id := 2147483647\<rparr>" 3]
  by (simp add: get_next_id_simps MAX_32_BIT_SIGNED_INT_def)

subsection \<open>Closing\<close>








subsection \<open>What a send leaves unchanged\<close>

lemma run_reader_frame:
  "client (run_reader k s) = client s"
  "dicts (run_reader k s) = dicts s"
  "length (connections (run_reader k s)) = length (connections s)"
  "closed (connections (run_reader k s) ! j) = closed (connections s ! j)"
  "written (connections (run_reader k s) ! j) = written (connections s ! j)"
  by (auto simp: run_reader_def Let_def nth_list_update split: prod.splits)





subsection \<open>Connecting\<close>










subsection \<open>A failed login\<close>






subsection \<open>Closing with a request in flight\<close>





subsection \<open>The authentication failure sentinel\<close>

lemma consume_reader_assertion:
  assumes "read_packet buf = Inr (pkt, rest)" "consume_packet pkt d fs = Inl e"
  shows "consume_reader buf eof d fs = (Failed e, rest, fs)"
  using assms by (subst consume_reader.simps) simp

text \<open>
  Claim C2. The reader has read an auth response with the sentinel id \<open>-1\<close>. When
  exactly one pending request is flagged \<open>is_auth\<close> (and its future is not done yet), the
  future of that request, and no other, is resolved with \<open>RCONAuthFailure\<close>, and the
  loop goes on. With no such request or more than one, the assertion fails: nothing is
  resolved, and the reader task dies with \<open>AssertionError\<close> without handling the bytes
  that follow.
\<close>

theorem auth_failure_sentinel:
  "type pkt = SERVERDATA_AUTH_RESPONSE \<and> pkt_id pkt = - 1 \<longrightarrow>
     (filter is_auth (map snd d) = [r] \<and> get_future fs (response_future r) = Pending \<longrightarrow>
        consume_packet pkt d fs = Inr (fs[response_future r := Raised RCONAuthFailure])) \<and>
     (length (filter is_auth (map snd d)) \<noteq> 1 \<longrightarrow>
        consume_packet pkt d fs = Inl AssertionError \<and>
        (read_packet buf = Inr (pkt, rest) \<longrightarrow>
           consume_reader buf eof d fs = (Failed AssertionError, rest, fs)))"
proof (intro impI conjI)
  assume p: "type pkt = SERVERDATA_AUTH_RESPONSE \<and> pkt_id pkt = - 1"
  {
    assume "filter is_auth (map snd d) = [r] \<and> get_future fs (response_future r) = Pending"
    with p show "consume_packet pkt d fs = Inr (fs[response_future r := Raised RCONAuthFailure])"
      by (simp add: consume_packet_def set_future_def)
  }
  assume n: "length (filter is_auth (map snd d)) \<noteq> 1"
  with p show c: "consume_packet pkt d fs = Inl AssertionError"
    by (simp add: consume_packet_def)
  assume "read_packet buf = Inr (pkt, rest)"
  then show "consume_reader buf eof d fs = (Failed AssertionError, rest, fs)"
    using c by (rule consume_reader_assertion)
qed

theorem auth_failure_sentinel_witness:
  "read_packet (auth_bad @ auth_ok) = Inr (\<lparr>pkt_id = - 1, type = 2, body = []\<rparr>, auth_ok) \<and>
   type \<lparr>pkt_id = - 1, type = 2, body = []\<rparr> = SERVERDATA_AUTH_RESPONSE \<and>
   pkt_id \<lparr>pkt_id = - 1, type = 2, body = []\<rparr> = - 1 \<and>
   filter is_auth (map snd [(4 :: int, \<lparr>is_auth = False, response_future = 0\<rparr>),
                            (5, \<lparr>is_auth = True, response_future = 1\<rparr>)])
     = [\<lparr>is_auth = True, response_future = 1\<rparr>] \<and>
   get_future [Pending, Pending] (response_future \<lparr>is_auth = True, response_future = 1\<rparr>) = Pending \<and>
   consume_packet \<lparr>pkt_id = - 1, type = 2, body = []\<rparr>
     [(4 :: int, \<lparr>is_auth = False, response_future = 0\<rparr>), (5, \<lparr>is_auth = True, response_future = 1\<rparr>)]
     [Pending, Pending] = Inr [Pending, Raised RCONAuthFailure] \<and>
   length (filter is_auth (map snd [(4 :: int, \<lparr>is_auth = False, response_future = 0\<rparr>)])) \<noteq> 1 \<and>
   consume_packet \<lparr>pkt_id = - 1, type = 2, body = []\<rparr>
     [(4 :: int, \<lparr>is_auth = False, response_future = 0\<rparr>)] [Pending] = Inl AssertionError \<and>
   consume_reader (auth_bad @ auth_ok) False [(4 :: int, \<lparr>is_auth = False, response_future = 0\<rparr>)] [Pending]
     = (Failed AssertionError, auth_ok, [Pending])"
proof -
  let ?p = "\<lparr>pkt_id = - 1, type = 2, body = []\<rparr>"
  let ?d2 = "[(4 :: int, \<lparr>is_auth = False, response_future = 0\<rparr>),
              (5, \<lparr>is_auth = True, response_future = 1\<rparr>)]"
  let ?d1 = "[(4 :: int, \<lparr>is_auth = False, response_future = 0\<rparr>)]"
  have r: "read_packet (auth_bad @ auth_ok) = Inr (?p, auth_ok)"
    by code_simp
  have h: "type ?p = SERVERDATA_AUTH_RESPONSE \<and> pkt_id ?p = - 1"
    by (simp add: SERVERDATA_AUTH_RESPONSE_def)
  have a: "filter is_auth (map snd ?d2) = [\<lparr>is_auth = True, response_future = 1\<rparr>]"
    "get_future [Pending, Pending] (response_future \<lparr>is_auth = True, response_future = 1\<rparr>) = Pending"
    "length (filter is_auth (map snd ?d1)) \<noteq> 1"
    by (simp_all add: get_future_def)
  note t1 = auth_failure_sentinel [of "?p" "?d2" "\<lparr>is_auth = True, response_future = 1\<rparr>"
      "[Pending, Pending]" "auth_bad @ auth_ok" auth_ok False]
    and t2 = auth_failure_sentinel [of "?p" "?d1" "\<lparr>is_auth = True, response_future = 1\<rparr>"
      "[Pending]" "auth_bad @ auth_ok" auth_ok False]
  from t1 h a(1,2) have c1: "consume_packet ?p ?d2 [Pending, Pending]
      = Inr ([Pending, Pending][response_future \<lparr>is_auth = True, response_future = 1\<rparr> := Raised RCONAuthFailure])"
    by blast
  from t2 h a(3) r have c2: "consume_packet ?p ?d1 [Pending] = Inl AssertionError"
    "consume_reader (auth_bad @ auth_ok) False ?d1 [Pending] = (Failed AssertionError, auth_ok, [Pending])"
    by blast+
  from c1 have c3: "consume_packet ?p ?d2 [Pending, Pending] = Inr [Pending, Raised RCONAuthFailure]"
    by simp
  from r h a c3 c2 show ?thesis by blast
qed

section \<open>Properties of the world\<close>

subsection \<open>The single quote\<close>

lemma end_send_connections: "connections (snd (end_send wt s)) = connections s"
  by (cases "get_future (futures s) (w_future wt)")
     (simp_all add: end_send_def del_pending_def split: sum.splits)

lemma deliver_written:
  "written (connections (deliver k bs s) ! j) = written (connections s ! j)"
  by (auto simp: deliver_def run_reader_frame nth_list_update)

lemma send_packet_written:
  assumes "writer (client s) = Some w" "w < length (connections s)"
    and "write_packet_bytes pkt = Inr bs"
  shows "written (connections (snd (send_packet pkt incoming s)) ! w)
         = written (connections s ! w) @ bs"
  using assms
  by (simp add: send_packet_def begin_send_ok end_send_connections deliver_written)

lemma send_command_written:
  assumes "writer (client s) = Some w" "w < length (connections s)"
    and "write_packet_bytes \<lparr>pkt_id = next_id (client s), type = SERVERDATA_EXECCOMMAND,
           body = command\<rparr> = Inr bs"
  shows "written (connections (snd (send_command command incoming s)) ! w)
         = written (connections s ! w) @ bs"
proof -
  define c where "c = snd (get_next_id (client s))"
  have g: "get_next_id (client s) = (next_id (client s), c)"
    by (simp add: c_def get_next_id_def Let_def)
  have w: "writer (client (s\<lparr>client := c\<rparr>)) = Some w"
    "w < length (connections (s\<lparr>client := c\<rparr>))"
    using assms(1,2) by (simp_all add: c_def get_next_id_simps)
  obtain r s1 where sp: "send_packet \<lparr>pkt_id = next_id (client s),
      type = SERVERDATA_EXECCOMMAND, body = command\<rparr> incoming (s\<lparr>client := c\<rparr>) = (r, s1)"
    by (metis surj_pair)
  have "snd (send_command command incoming s) = s1"
    by (cases r) (simp_all add: send_command_def g sp)
  with send_packet_written [OF w assms(3), of incoming] sp
  show ?thesis by simp
qed

text \<open>
  Claim C10. When the serialized request contains a single quote (code 39), \<open>call_mod\<close>
  raises \<open>NotImplementedError\<close> and the whole state (client, pending requests,
  connections and the bytes written on them) is as before, whatever the server would
  have sent. When it contains none, the check passes: the command that embeds the
  serialized request is handed to \<open>send_command\<close>, and on a connected client its frame
  is written to the connection.
\<close>

theorem call_mod_single_quote:
  "(39 \<in> set (dumps \<lparr>rpc_method = m, params = (case ps of None \<Rightarrow> [] | Some l \<Rightarrow> l)\<rparr>) \<longrightarrow>
      call_mod dumps loads rt m ps incoming s = (Inl NotImplementedError, s)) \<and>
   (39 \<notin> set (dumps \<lparr>rpc_method = m, params = (case ps of None \<Rightarrow> [] | Some l \<Rightarrow> l)\<rparr>) \<longrightarrow>
      (\<exists>command.
         call_mod_command dumps m ps = Inr command \<and>
         command = str_of ''/silent-command rcon.print(remote.call('fle', 'call', '' @ [39]
                   @ dumps \<lparr>rpc_method = m, params = (case ps of None \<Rightarrow> [] | Some l \<Rightarrow> l)\<rparr>
                   @ [39] @ str_of ''))'' \<and>
         call_mod dumps loads rt m ps incoming s =
           (case send_command command incoming s of
              (Inl e, s1) \<Rightarrow> (Inl e, s1)
            | (Inr serialized_response, s1) \<Rightarrow>
                (call_mod_result loads rt serialized_response, s1)) \<and>
         (writer (client s) = Some w \<and> w < length (connections s) \<and>
          write_packet_bytes \<lparr>pkt_id = next_id (client s), type = SERVERDATA_EXECCOMMAND,
            body = command\<rparr> = Inr bs \<longrightarrow>
            written (connections (snd (call_mod dumps loads rt m ps incoming s)) ! w)
              = written (connections s ! w) @ bs)))"
proof (intro conjI impI)
  assume "39 \<in> set (dumps \<lparr>rpc_method = m, params = (case ps of None \<Rightarrow> [] | Some l \<Rightarrow> l)\<rparr>)"
  then show "call_mod dumps loads rt m ps incoming s = (Inl NotImplementedError, s)"
    by (simp add: call_mod_def call_mod_command_def Let_def)
next
  let ?c = "str_of ''/silent-command rcon.print(remote.call('fle', 'call', '' @ [39]
                   @ dumps \<lparr>rpc_method = m, params = (case ps of None \<Rightarrow> [] | Some l \<Rightarrow> l)\<rparr>
                   @ [39] @ str_of ''))''"
  assume n: "39 \<notin> set (dumps \<lparr>rpc_method = m, params = (case ps of None \<Rightarrow> [] | Some l \<Rightarrow> l)\<rparr>)"
  then have c: "call_mod_command dumps m ps = Inr ?c"
    by (simp add: call_mod_command_def Let_def)
  have cm: "call_mod dumps loads rt m ps incoming s =
           (case send_command ?c incoming s of
              (Inl e, s1) \<Rightarrow> (Inl e, s1)
            | (Inr serialized_response, s1) \<Rightarrow>
                (call_mod_result loads rt serialized_response, s1))"
    by (simp add: call_mod_def c)
  have sn: "snd (call_mod dumps loads rt m ps incoming s) = snd (send_command ?c incoming s)"
    by (simp add: cm split: prod.splits sum.splits)
  have wr: "written (connections (snd (call_mod dumps loads rt m ps incoming s)) ! w)
              = written (connections s ! w) @ bs"
    if "writer (client s) = Some w \<and> w < length (connections s) \<and>
          write_packet_bytes \<lparr>pkt_id = next_id (client s), type = SERVERDATA_EXECCOMMAND,
            body = ?c\<rparr> = Inr bs"
    using that send_command_written [of s w ?c bs incoming] by (simp add: sn)
  from c cm wr show "\<exists>command.
         call_mod_command dumps m ps = Inr command \<and>
         command = ?c \<and>
         call_mod dumps loads rt m ps incoming s =
           (case send_command command incoming s of
              (Inl e, s1) \<Rightarrow> (Inl e, s1)
            | (Inr serialized_response, s1) \<Rightarrow>
                (call_mod_result loads rt serialized_response, s1)) \<and>
         (writer (client s) = Some w \<and> w < length (connections s) \<and>
          write_packet_bytes \<lparr>pkt_id = next_id (client s), type = SERVERDATA_EXECCOMMAND,
            body = command\<rparr> = Inr bs \<longrightarrow>
            written (connections (snd (call_mod dumps loads rt m ps incoming s)) ! w)
              = written (connections s ! w) @ bs)"
    by blast
qed


theorem call_mod_single_quote_witness:
  "39 \<in> set (demo_dumps \<lparr>rpc_method = str_of ''test_echo'',
                 params = (case quoted_request of None \<Rightarrow> [] | Some l \<Rightarrow> l)\<rparr>) \<and>
   call_mod demo_dumps (demo_loads [102]) PlainType (str_of ''test_echo'') quoted_request
     (reply_frame 1 ''foo'') connected = (Inl NotImplementedError, connected) \<and>
   39 \<notin> set (demo_dumps \<lparr>rpc_method = str_of ''test_echo'',
                 params = (case plain_request of None \<Rightarrow> [] | Some l \<Rightarrow> l)\<rparr>) \<and>
   writer (client connected) = Some 0 \<and> 0 < length (connections connected) \<and>
   write_packet_bytes \<lparr>pkt_id = next_id (client connected), type = SERVERDATA_EXECCOMMAND,
     body = plain_command\<rparr>
     = Inr (frame \<lparr>pkt_id = 1, type = SERVERDATA_EXECCOMMAND, body = plain_command\<rparr>) \<and>
   call_mod_command demo_dumps (str_of ''test_echo'') plain_request = Inr plain_command \<and>
   written (connections (snd (call_mod demo_dumps (demo_loads [102]) PlainType
       (str_of ''test_echo'') plain_request (reply_frame 1 ''foo'') connected)) ! 0)
     = written (connections connected ! 0)
       @ frame \<lparr>pkt_id = 1, type = SERVERDATA_EXECCOMMAND, body = plain_command\<rparr>"
proof -
  have q: "39 \<in> set (demo_dumps \<lparr>rpc_method = str_of ''test_echo'',
                 params = (case quoted_request of None \<Rightarrow> [] | Some l \<Rightarrow> l)\<rparr>)"
    by code_simp
  have n: "39 \<notin> set (demo_dumps \<lparr>rpc_method = str_of ''test_echo'',
                 params = (case plain_request of None \<Rightarrow> [] | Some l \<Rightarrow> l)\<rparr>)"
    by code_simp
  have c: "writer (client connected) = Some 0" "0 < length (connections connected)"
    "write_packet_bytes \<lparr>pkt_id = next_id (client connected), type = SERVERDATA_EXECCOMMAND,
       body = plain_command\<rparr>
     = Inr (frame \<lparr>pkt_id = 1, type = SERVERDATA_EXECCOMMAND, body = plain_command\<rparr>)"
    by code_simp+
  have pc: "str_of ''/silent-command rcon.print(remote.call('fle', 'call', '' @ [39]
     @ demo_dumps \<lparr>rpc_method = str_of ''test_echo'',
         params = (case plain_request of None \<Rightarrow> [] | Some l \<Rightarrow> l)\<rparr>
     @ [39] @ str_of ''))'' = plain_command"
    by (simp add: plain_command_def plain_request_def)
  note t1 = call_mod_single_quote [of demo_dumps "str_of ''test_echo''" quoted_request
      "demo_loads [102]" PlainType "reply_frame 1 ''foo''" connected 0
      "frame \<lparr>pkt_id = 1, type = SERVERDATA_EXECCOMMAND, body = plain_command\<rparr>"]
  note t2 = call_mod_single_quote [of demo_dumps "str_of ''test_echo''" plain_request
      "demo_loads [102]" PlainType "reply_frame 1 ''foo''" connected 0
      "frame \<lparr>pkt_id = 1, type = SERVERDATA_EXECCOMMAND, body = plain_command\<rparr>",
      unfolded pc]
  from t1 q have r1: "call_mod demo_dumps (demo_loads [102]) PlainType (str_of ''test_echo'')
     quoted_request (reply_frame 1 ''foo'') connected = (Inl NotImplementedError, connected)"
    by blast
  from t2 n c have r2: "call_mod_command demo_dumps (str_of ''test_echo'') plain_request
      = Inr plain_command"
    "written (connections (snd (call_mod demo_dumps (demo_loads [102]) PlainType
       (str_of ''test_echo'') plain_request (reply_frame 1 ''foo'') connected)) ! 0)
     = written (connections connected ! 0)
       @ frame \<lparr>pkt_id = 1, type = SERVERDATA_EXECCOMMAND, body = plain_command\<rparr>"
    by auto
  from q n c r1 r2 show ?thesis by blast
qed

subsection \<open>Stepping\<close>

lemma poll_ticks_frame:
  "poll_ticks int_of polls w s = Some (r, w', s') \<Longrightarrow>
     cur_target_tick w' = cur_target_tick w \<and> initial_tick w' = initial_tick w"
proof (induction polls arbitrary: w s)
  case Nil
  then show ?case by (auto split: if_splits)
next
  case (Cons incoming rest)
  show ?case
  proof (cases "cur_tick w < cur_target_tick w")
    case False
    with Cons.prems show ?thesis by auto
  next
    case True
    obtain q s1 where sc: "send_command tick_command incoming s = (q, s1)" by (metis surj_pair)
    show ?thesis
    proof (cases q)
      case (Inl e)
      with Cons.prems True sc show ?thesis by auto
    next
      case (Inr cur_tick_str)
      show ?thesis
      proof (cases "int_of cur_tick_str")
        case e: (Inl e)
        with Cons.prems True sc Inr show ?thesis by auto
      next
        case t: (Inr t)
        with Cons.prems True sc Inr
        have "poll_ticks int_of rest (w\<lparr>cur_tick := t\<rparr>) s1 = Some (r, w', s')" by simp
        from Cons.IH [OF this] show ?thesis by simp
      qed
    qed
  qed
qed

lemma poll_ticks_returns:
  "poll_ticks int_of polls w s = Some (Inr (), w', s') \<Longrightarrow> cur_tick w' = cur_target_tick w'"
proof (induction polls arbitrary: w s)
  case Nil
  then show ?case by (auto simp: check_tick_def split: if_splits)
next
  case (Cons incoming rest)
  show ?case
  proof (cases "cur_tick w < cur_target_tick w")
    case False
    with Cons.prems show ?thesis by (auto simp: check_tick_def split: if_splits)
  next
    case True
    obtain q s1 where sc: "send_command tick_command incoming s = (q, s1)" by (metis surj_pair)
    show ?thesis
    proof (cases q)
      case (Inl e)
      with Cons.prems True sc show ?thesis by auto
    next
      case (Inr cur_tick_str)
      show ?thesis
      proof (cases "int_of cur_tick_str")
        case e: (Inl e)
        with Cons.prems True sc Inr show ?thesis by auto
      next
        case t: (Inr t)
        with Cons.prems True sc Inr
        have "poll_ticks int_of rest (w\<lparr>cur_tick := t\<rparr>) s1 = Some (Inr (), w', s')" by simp
        from Cons.IH [OF this] show ?thesis by simp
      qed
    qed
  qed
qed

lemma poll_ticks_overshoot:
  "poll_ticks int_of polls w s = Some (r, w', s') \<Longrightarrow> cur_target_tick w' < cur_tick w'
     \<Longrightarrow> r = Inl AssertionError"
proof (induction polls arbitrary: w s)
  case Nil
  then show ?case by (auto simp: check_tick_def split: if_splits)
next
  case (Cons incoming rest)
  show ?case
  proof (cases "cur_tick w < cur_target_tick w")
    case False
    with Cons.prems show ?thesis by (auto simp: check_tick_def split: if_splits)
  next
    case True
    obtain q s1 where sc: "send_command tick_command incoming s = (q, s1)" by (metis surj_pair)
    show ?thesis
    proof (cases q)
      case (Inl e)
      with Cons.prems True sc show ?thesis by auto
    next
      case (Inr cur_tick_str)
      show ?thesis
      proof (cases "int_of cur_tick_str")
        case e: (Inl e)
        with Cons.prems True sc Inr show ?thesis by auto
      next
        case t: (Inr t)
        with Cons.prems True sc Inr
        have "poll_ticks int_of rest (w\<lparr>cur_tick := t\<rparr>) s1 = Some (r, w', s')" by simp
        from Cons.IH [OF this Cons.prems(2)] show ?thesis .
      qed
    qed
  qed
qed

lemma step_frame:
  assumes "step dumps loads int_of n reply polls w s = Some (r, w', s')"
  shows "cur_target_tick w' = cur_target_tick w + n" "initial_tick w' = initial_tick w"
proof -
  obtain q s1 where c: "call_mod dumps loads ReturnsNone (str_of ''step'')
      (Some [IntParam n]) reply s = (q, s1)" by (metis surj_pair)
  have "cur_target_tick w' = cur_target_tick w + n \<and> initial_tick w' = initial_tick w"
  proof (cases q)
    case (Inl e)
    with assms c show ?thesis by (auto simp: step_def Let_def)
  next
    case (Inr u)
    with assms c have "poll_ticks int_of polls
        (w\<lparr>cur_target_tick := cur_target_tick w + n\<rparr>) s1 = Some (r, w', s')"
      by (simp add: step_def Let_def)
    from poll_ticks_frame [OF this] show ?thesis by simp
  qed
  then show "cur_target_tick w' = cur_target_tick w + n" "initial_tick w' = initial_tick w"
    by simp_all
qed

lemma step_returns:
  assumes "step dumps loads int_of n reply polls w s = Some (Inr (), w', s')"
  shows "cur_tick w' = cur_target_tick w'"
proof -
  obtain q s1 where c: "call_mod dumps loads ReturnsNone (str_of ''step'')
      (Some [IntParam n]) reply s = (q, s1)" by (metis surj_pair)
  show ?thesis
  proof (cases q)
    case (Inl e)
    with assms c show ?thesis by (auto simp: step_def Let_def)
  next
    case (Inr u)
    with assms c have "poll_ticks int_of polls
        (w\<lparr>cur_target_tick := cur_target_tick w + n\<rparr>) s1 = Some (Inr (), w', s')"
      by (simp add: step_def Let_def)
    from poll_ticks_returns [OF this] show ?thesis .
  qed
qed

lemma step_overshoot:
  assumes "step dumps loads int_of n reply polls w s = Some (r, w', s')"
    and "cur_target_tick w' < cur_tick w'" and "cur_tick w \<le> cur_target_tick w" "0 \<le> n"
  shows "r = Inl AssertionError"
proof -
  obtain q s1 where c: "call_mod dumps loads ReturnsNone (str_of ''step'')
      (Some [IntParam n]) reply s = (q, s1)" by (metis surj_pair)
  show ?thesis
  proof (cases q)
    case (Inl e)
    with assms c show ?thesis by (auto simp: step_def Let_def)
  next
    case (Inr u)
    with assms c have "poll_ticks int_of polls
        (w\<lparr>cur_target_tick := cur_target_tick w + n\<rparr>) s1 = Some (r, w', s')"
      by (simp add: step_def Let_def)
    from poll_ticks_overshoot [OF this assms(2)] show ?thesis .
  qed
qed

lemma steps_returns:
  "steps dumps loads int_of calls w s = Some (Inr (), w', s') \<Longrightarrow>
   cur_tick w = cur_target_tick w \<Longrightarrow>
     cur_tick w' = cur_target_tick w' \<and>
     cur_target_tick w' = cur_target_tick w + sum_list (map fst calls) \<and>
     initial_tick w' = initial_tick w"
proof (induction calls arbitrary: w s)
  case Nil
  then show ?case by simp
next
  case (Cons c calls)
  obtain n reply polls where c: "c = (n, reply, polls)" by (cases c)
  from Cons.prems(1) obtain w1 s1 where
    st: "step dumps loads int_of n reply polls w s = Some (Inr (), w1, s1)"
    and rest: "steps dumps loads int_of calls w1 s1 = Some (Inr (), w', s')"
    by (auto simp: c split: option.splits sum.splits)
  note f = step_frame [OF st] and r = step_returns [OF st]
  from Cons.IH [OF rest r] f show ?case by (simp add: c)
qed

lemma steps_overshoot:
  "steps dumps loads int_of calls w s = Some (r, w', s') \<Longrightarrow>
   cur_tick w \<le> cur_target_tick w \<Longrightarrow> list_all (\<lambda>c. 0 \<le> fst c) calls \<Longrightarrow>
   cur_target_tick w' < cur_tick w' \<Longrightarrow> r = Inl AssertionError"
proof (induction calls arbitrary: w s)
  case Nil
  then show ?case by simp
next
  case (Cons c calls)
  obtain n reply polls where c: "c = (n, reply, polls)" by (cases c)
  from Cons.prems(3) have n: "0 \<le> n" and ns: "list_all (\<lambda>c. 0 \<le> fst c) calls"
    by (simp_all add: c)
  from Cons.prems(1) obtain q w1 s1 where
    st: "step dumps loads int_of n reply polls w s = Some (q, w1, s1)"
    by (auto simp: c split: option.splits)
  show ?case
  proof (cases q)
    case (Inl e)
    with Cons.prems(1) st have "r = Inl e" "w' = w1" by (simp_all add: c)
    with step_overshoot [OF st _ Cons.prems(2) n] Cons.prems(4) Inl show ?thesis by simp
  next
    case (Inr u)
    with Cons.prems(1) st have rest: "steps dumps loads int_of calls w1 s1 = Some (r, w', s')"
      by (simp add: c)
    from st Inr have "cur_tick w1 = cur_target_tick w1" using step_returns by (cases u) blast
    with Cons.IH [OF rest _ ns Cons.prems(4)] show ?thesis by simp
  qed
qed


text \<open>
  Against claim C1 as stated: on a new world at tick 0, \<open>step(-1)\<close> lowers the target
  to \<open>-1\<close>; the server does not answer the call, \<open>step\<close> raises \<open>TimeoutError\<close>, and the
  world is left with the observed tick 0 above the target \<open>-1\<close>. No assertion has failed.
\<close>

theorem step_negative_breaks_invariant:
  "\<exists>w' s'. step demo_dumps (demo_loads ()) demo_int (- 1) [] [] (new_World 0) connected
             = Some (Inl TimeoutError, w', s') \<and>
           cur_tick w' = 0 \<and> cur_target_tick w' = - 1 \<and> cur_target_tick w' < cur_tick w'"
proof -
  have "map_option (\<lambda>(r, w, s). (r, w))
          (step demo_dumps (demo_loads ()) demo_int (- 1) [] [] (new_World 0) connected)
        = Some (Inl TimeoutError, \<lparr>initial_tick = 0, cur_tick = 0, cur_target_tick = - 1\<rparr>)"
    by code_simp
  then show ?thesis by auto
qed

text \<open>
  Claim C1, amended. When \<open>step(n)\<close> returns normally, the observed tick equals the
  target, which is the former target plus \<open>n\<close>. After calls \<open>step(n1)\<close>, ..., \<open>step(nk)\<close>
  that all return normally on a new world, the observed tick is the initial tick plus
  \<open>n1 + ... + nk\<close>, and \<open>get_current_tick\<close> is that sum. For step counts that are not
  negative, whenever a sequence of steps on a new world ends (normally or with an
  exception) in a state whose observed tick exceeds the target, the exception is
  \<open>AssertionError\<close>: otherwise the observed tick is at most the target.
\<close>

theorem step_ticks:
  "(step dumps loads int_of n reply polls w s = Some (Inr (), w', s') \<longrightarrow>
      cur_tick w' = cur_target_tick w' \<and> cur_target_tick w' = cur_target_tick w + n) \<and>
   (steps dumps loads int_of calls (new_World t) s = Some (Inr (), w', s') \<longrightarrow>
      cur_tick w' = cur_target_tick w' \<and>
      cur_tick w' = t + sum_list (map fst calls) \<and>
      get_current_tick w' = sum_list (map fst calls)) \<and>
   (steps dumps loads int_of calls (new_World t) s = Some (r, w', s') \<and>
    list_all (\<lambda>c. 0 \<le> fst c) calls \<longrightarrow>
      (cur_target_tick w' < cur_tick w' \<longrightarrow> r = Inl AssertionError) \<and>
      (r \<noteq> Inl AssertionError \<longrightarrow> cur_tick w' \<le> cur_target_tick w'))"
proof (intro conjI impI)
  assume a: "step dumps loads int_of n reply polls w s = Some (Inr (), w', s')"
  show "cur_tick w' = cur_target_tick w'" by (rule step_returns [OF a])
  show "cur_target_tick w' = cur_target_tick w + n" by (rule step_frame [OF a])
next
  assume a: "steps dumps loads int_of calls (new_World t) s = Some (Inr (), w', s')"
  have n: "cur_tick (new_World t) = cur_target_tick (new_World t)" by (simp add: new_World_def)
  note r = steps_returns [OF a n]
  from r show "cur_tick w' = cur_target_tick w'" by simp
  from r show "cur_tick w' = t + sum_list (map fst calls)" by (simp add: new_World_def)
  from r show "get_current_tick w' = sum_list (map fst calls)"
    by (simp add: new_World_def get_current_tick_def)
next
  assume a: "steps dumps loads int_of calls (new_World t) s = Some (r, w', s') \<and>
    list_all (\<lambda>c. 0 \<le> fst c) calls"
  have n: "cur_tick (new_World t) \<le> cur_target_tick (new_World t)" by (simp add: new_World_def)
  {
    assume "cur_target_tick w' < cur_tick w'"
    with a n show "r = Inl AssertionError" using steps_overshoot by blast
  }
  assume "r \<noteq> Inl AssertionError"
  with a n show "cur_tick w' \<le> cur_target_tick w'"
    using steps_overshoot [of dumps loads int_of calls "new_World t" s r w' s'] by force
qed


lemma run_shape:
  "map_option (\<lambda>(q, w, s). (q, w)) r = Some (q, w) \<Longrightarrow>
     r = Some (q, final_world r, final_system r) \<and> final_world r = w"
  by (cases r) (auto simp: final_world_def final_system_def)

theorem step_ticks_witness:
  "run_one = Some (Inr (), final_world run_one, final_system run_one) \<and>
   cur_tick (final_world run_one) = cur_target_tick (final_world run_one) \<and>
   cur_target_tick (final_world run_one) = cur_target_tick (new_World 0) + 2 \<and>
   run_two = Some (Inr (), final_world run_two, final_system run_two) \<and>
   list_all (\<lambda>c. 0 \<le> fst c) two_calls \<and>
   get_current_tick (final_world run_two) = sum_list (map fst two_calls) \<and>
   sum_list (map fst two_calls) = 3 \<and>
   cur_tick (final_world run_two) \<le> cur_target_tick (final_world run_two) \<and>
   run_over = Some (Inl AssertionError, final_world run_over, final_system run_over) \<and>
   list_all (\<lambda>c. 0 \<le> fst c) overshooting_call \<and>
   final_world run_over = \<lparr>initial_tick = 0, cur_tick = 3, cur_target_tick = 2\<rparr>"
proof -
  have "map_option (\<lambda>(q, w, s). (q, w)) run_one
        = Some (Inr (), \<lparr>initial_tick = 0, cur_tick = 2, cur_target_tick = 2\<rparr>)"
    by code_simp
  from run_shape [OF this]
  have one: "run_one = Some (Inr (), final_world run_one, final_system run_one)"
    by (rule conjunct1)
  have "map_option (\<lambda>(q, w, s). (q, w)) run_two
        = Some (Inr (), \<lparr>initial_tick = 0, cur_tick = 3, cur_target_tick = 3\<rparr>)"
    by code_simp
  from run_shape [OF this]
  have two: "run_two = Some (Inr (), final_world run_two, final_system run_two)"
    by (rule conjunct1)
  have "map_option (\<lambda>(q, w, s). (q, w)) run_over
        = Some (Inl AssertionError, \<lparr>initial_tick = 0, cur_tick = 3, cur_target_tick = 2\<rparr>)"
    by code_simp
  note ro = run_shape [OF this]
  have over: "run_over = Some (Inl AssertionError, final_world run_over, final_system run_over)"
    using ro by (rule conjunct1)
  have ov: "final_world run_over = \<lparr>initial_tick = 0, cur_tick = 3, cur_target_tick = 2\<rparr>"
    using ro by (rule conjunct2)
  have nn: "list_all (\<lambda>c. 0 \<le> fst c) two_calls" "list_all (\<lambda>c. 0 \<le> fst c) overshooting_call"
    "sum_list (map fst two_calls) = 3"
    by (simp_all add: two_calls_def overshooting_call_def)
  note t1 = step_ticks [of demo_dumps "demo_loads ()" demo_int 2 "reply_frame 1 ''null''"
      "[reply_frame 2 ''1'', reply_frame 3 ''2'']" "new_World 0" connected
      "final_world run_one" "final_system run_one" two_calls 0 "Inr ()", folded run_one_def]
  note t2 = step_ticks [of demo_dumps "demo_loads ()" demo_int 2 "reply_frame 1 ''null''"
      "[reply_frame 2 ''1'', reply_frame 3 ''2'']" "new_World 0" connected
      "final_world run_two" "final_system run_two" two_calls 0 "Inr ()", folded run_two_def]
  from t1 one have a: "cur_tick (final_world run_one) = cur_target_tick (final_world run_one)"
    "cur_target_tick (final_world run_one) = cur_target_tick (new_World 0) + 2"
    by blast+
  from t2 two nn(1) have b: "get_current_tick (final_world run_two) = sum_list (map fst two_calls)"
    "cur_tick (final_world run_two) \<le> cur_target_tick (final_world run_two)"
    by blast+
  from one two over nn ov a b show ?thesis by blast
qed

section \<open>Batch creation of entities\<close>














end
